theory Spec2Isabelle
  imports Main "HOL-Library.Word"
begin

unbundle bit_operations_syntax

section \<open>The allocator of mymalloc.c\<close>

text \<open>
  The embedding follows \<^verbatim>\<open>mymalloc.c\<close> on an LP64 platform: \<^verbatim>\<open>size_t\<close>, \<^verbatim>\<open>uintptr_t\<close>
  and pointers are 64-bit words, \<^verbatim>\<open>sizeof(allocHdr)\<close> is 8. The process memory is a
  store from addresses to the pointer-sized word kept there; only block headers
  (the \<^verbatim>\<open>next\<close> field of an \<^verbatim>\<open>allocHdr\<close>) are ever read or written by the allocator.
  The global \<^verbatim>\<open>Heap _h\<close> and the store together are the state, passed explicitly.
  The value returned by \<^verbatim>\<open>sbrk\<close> is a parameter \<open>brk\<close> of the allocation call.
  A call that does not return normally, because a loop over the chain never ends or
  because \<^verbatim>\<open>do_compact\<close> stores through the null pointer, has the value \<open>None\<close>.
  Every other address can be read and written: \<^verbatim>\<open>sbrk\<close> is taken to succeed, and a
  store past the arena changes the word there instead of trapping. The allocator's
  client is not part of the model, so the words of a payload stay as they are.
\<close>

type_synonym addr = "64 word"
type_synonym memory = "addr \<Rightarrow> addr"

record Heap =
  size_heap :: "64 word"
  available_size :: "64 word"
  start_of_heap :: addr
  mem :: memory

definition MY_ALIGNMENT_SZ :: "64 word" where
  "MY_ALIGNMENT_SZ = 8"

definition IN_USE_BIT :: "64 word" where
  "IN_USE_BIT = 1"

definition SZ_BLOCK_METADATA :: "64 word" where
  "SZ_BLOCK_METADATA = 8"

definition ALIGN :: "64 word \<Rightarrow> 64 word" where
  "ALIGN x = (x + MY_ALIGNMENT_SZ) AND NOT (MY_ALIGNMENT_SZ - 1)"

definition UNSET_INUSE :: "memory \<Rightarrow> addr \<Rightarrow> memory" where
  "UNSET_INUSE m x = m(x := m x AND NOT IN_USE_BIT)"

definition SET_INUSE :: "memory \<Rightarrow> addr \<Rightarrow> memory" where
  "SET_INUSE m x = m(x := m x OR IN_USE_BIT)"

definition IS_INUSE :: "memory \<Rightarrow> addr \<Rightarrow> bool" where
  "IS_INUSE m x = (m x AND IN_USE_BIT \<noteq> 0)"

definition NEXT_ADDRESS :: "memory \<Rightarrow> addr \<Rightarrow> addr" where
  "NEXT_ADDRESS m x = m x AND NOT IN_USE_BIT"

text \<open>\<^verbatim>\<open>&_x->start\<close> is the block's address plus the size of its header.\<close>

definition BLOCK_SIZE :: "memory \<Rightarrow> addr \<Rightarrow> 64 word" where
  "BLOCK_SIZE m x = NEXT_ADDRESS m x - (x + SZ_BLOCK_METADATA)"

text \<open>The \<^verbatim>\<open>for\<close> loop of \<^verbatim>\<open>do_compact\<close>; its result is the final value of \<^verbatim>\<open>last\<close>.\<close>

partial_function (option) compact_walk :: "memory \<Rightarrow> addr \<Rightarrow> addr option" where
  "compact_walk m lst =
     (if lst \<noteq> 0 \<and> \<not> IS_INUSE m lst then compact_walk m (NEXT_ADDRESS m lst)
      else Some lst)"

declare compact_walk.simps [code]

text \<open>The store through \<^verbatim>\<open>block\<close> after the loop traps when \<^verbatim>\<open>block\<close> is null.\<close>

definition do_compact :: "memory \<Rightarrow> addr \<Rightarrow> memory option" where
  "do_compact m block =
     (case compact_walk m block of
        None \<Rightarrow> None
      | Some lst \<Rightarrow> if block = 0 then None else Some (m(block := lst)))"

definition init_heap :: "addr \<Rightarrow> Heap \<Rightarrow> Heap" where
  "init_heap brk h =
     h\<lparr>size_heap := 4096, available_size := 4096, start_of_heap := brk,
       mem := (mem h)(brk := 0)\<rparr>"

text \<open>The loop of \<^verbatim>\<open>reset_heap\<close>.\<close>

partial_function (option) reset_walk :: "memory \<Rightarrow> addr \<Rightarrow> memory option" where
  "reset_walk m tmp =
     (if tmp \<noteq> 0
      then reset_walk (UNSET_INUSE m tmp) (NEXT_ADDRESS (UNSET_INUSE m tmp) tmp)
      else Some m)"

declare reset_walk.simps [code]

definition reset_heap :: "Heap \<Rightarrow> Heap option" where
  "reset_heap h =
     (case reset_walk (mem h) (start_of_heap h) of
        None \<Rightarrow> None
      | Some m1 \<Rightarrow> map_option (\<lambda>m2. h\<lparr>mem := m2\<rparr>) (do_compact m1 (start_of_heap h)))"

text \<open>
  The search loop of \<^verbatim>\<open>mymalloc\<close>. It returns the store, changed by the coalescing
  done on the way, and the final value of \<^verbatim>\<open>tmp\<close> (null when the chain was exhausted).
\<close>

partial_function (option) find_fit ::
  "64 word \<Rightarrow> memory \<Rightarrow> addr \<Rightarrow> (memory \<times> addr) option" where
  "find_fit aux_size m tmp =
     (if tmp = 0 then Some (m, tmp)
      else if \<not> IS_INUSE m tmp then
        Option.bind (do_compact m tmp) (\<lambda>m'.
          if aux_size \<le> BLOCK_SIZE m' tmp then Some (m', tmp)
          else find_fit aux_size m' (NEXT_ADDRESS m' tmp))
      else find_fit aux_size m (NEXT_ADDRESS m tmp))"

declare find_fit.simps [code]

text \<open>
  How a call of \<^verbatim>\<open>mymalloc\<close> ends: it returns a pointer, or one of its two
  assertions fails (the first is followed by \<^verbatim>\<open>return NULL\<close> in a build without
  assertions).
\<close>

datatype outcome = Returned addr | Not_enough_space | No_block_found

text \<open>The splitting decision and \<^verbatim>\<open>SET_INUSE\<close>, on the block the search stopped at.\<close>

definition place :: "64 word \<Rightarrow> memory \<Rightarrow> addr \<Rightarrow> memory" where
  "place aux_size m tmp =
     (let m1 = (if aux_size + SZ_BLOCK_METADATA + ALIGN 1 \<le> BLOCK_SIZE m tmp then
                  (let tmp2 = tmp + aux_size;
                       ma = m(tmp2 := m tmp);
                       mb = UNSET_INUSE ma tmp2
                   in mb(tmp := tmp2))
                else m)
      in SET_INUSE m1 tmp)"

text \<open>\<^verbatim>\<open>if (_h.size <= 0) init_heap(&_h);\<close>\<close>

definition lazy_init :: "addr \<Rightarrow> Heap \<Rightarrow> Heap" where
  "lazy_init brk h = (if size_heap h \<le> 0 then init_heap brk h else h)"

definition mymalloc :: "addr \<Rightarrow> Heap \<Rightarrow> 64 word \<Rightarrow> (outcome \<times> Heap) option" where
  "mymalloc brk h0 sz =
     (let aux_size = ALIGN (sz + SZ_BLOCK_METADATA);
          h = lazy_init brk h0
      in if available_size h < aux_size then Some (Not_enough_space, h)
         else
           (case find_fit aux_size (mem h) (start_of_heap h) of
              None \<Rightarrow> None
            | Some (m, tmp) \<Rightarrow>
                if tmp = 0 then Some (No_block_found, h\<lparr>mem := m\<rparr>)
                else Some (Returned (tmp + SZ_BLOCK_METADATA),
                           h\<lparr>available_size := available_size h - aux_size,
                             mem := place aux_size m tmp\<rparr>)))"

definition myfree :: "Heap \<Rightarrow> addr \<Rightarrow> Heap option" where
  "myfree h ptr =
     (if ptr = 0 then Some h
      else (let tmp = ptr - SZ_BLOCK_METADATA
            in map_option (\<lambda>m. h\<lparr>mem := m\<rparr>) (do_compact (UNSET_INUSE (mem h) tmp) tmp)))"

text \<open>The zero-initialised global \<^verbatim>\<open>_h\<close> at program start, over any store.\<close>

definition heap0 :: "memory \<Rightarrow> Heap" where
  "heap0 m = \<lparr>size_heap = 0, available_size = 0, start_of_heap = 0, mem = m\<rparr>"

text \<open>Concrete heaps at which the theorems below are instantiated.\<close>

definition looping_heap :: Heap where
  "looping_heap = \<lparr>size_heap = 4096, available_size = 16, start_of_heap = 4096,
                    mem = (\<lambda>_. 4097)\<rparr>"

definition one_block_heap :: Heap where
  "one_block_heap = \<lparr>size_heap = 4096, available_size = 4072, start_of_heap = 4096,
                      mem = (\<lambda>_. 0)(4096 := 4121)\<rparr>"

text \<open>
  \<open>free_run m b xs l\<close>: following next references from \<open>b\<close> passes through the blocks
  \<open>xs\<close>, each of them non-null and free, and arrives at \<open>l\<close>.
\<close>

fun free_run :: "memory \<Rightarrow> addr \<Rightarrow> addr list \<Rightarrow> addr \<Rightarrow> bool" where
  "free_run m b [] l = (b = l)"
| "free_run m b (x # xs) l =
     (x = b \<and> b \<noteq> 0 \<and> \<not> IS_INUSE m b \<and> free_run m (NEXT_ADDRESS m b) xs l)"

definition two_free_heap :: memory where
  "two_free_heap = (\<lambda>_. 0)(4096 := 4120, 4120 := 4144, 4144 := 4169)"

definition zero_store :: memory where
  "zero_store = (\<lambda>_. 0)"

definition full_heap :: Heap where
  "full_heap = \<lparr>size_heap = 4096, available_size = 0, start_of_heap = 4096,
                 mem = zero_store(4096 := 8193)\<rparr>"

definition reset_block_heap :: Heap where
  "reset_block_heap = \<lparr>size_heap = 4096, available_size = 4072, start_of_heap = 4096,
                        mem = zero_store\<rparr>"

section \<open>Well-formed heaps\<close>

text \<open>
  A block that is in use and whose next reference is its own address: the search
  loop never gets past it. The allocator produces one when it serves a request whose
  footprint has wrapped around to 0.
\<close>

definition stuck :: "memory \<Rightarrow> addr \<Rightarrow> bool" where
  "stuck m b = (IS_INUSE m b \<and> NEXT_ADDRESS m b = b)"

definition hd_or :: "addr list \<Rightarrow> addr \<Rightarrow> addr" where
  "hd_or bs e = (case bs of [] \<Rightarrow> e | c # _ \<Rightarrow> c)"

text \<open>
  \<open>seg m e bs\<close>: each block of \<open>bs\<close> refers to the block after it in the list, the
  last one to \<open>e\<close>, unless it is stuck.
\<close>

fun seg :: "memory \<Rightarrow> addr \<Rightarrow> addr list \<Rightarrow> bool" where
  "seg m e [] = True"
| "seg m e (b # bs) = ((NEXT_ADDRESS m b = hd_or bs e \<or> stuck m b) \<and> seg m e bs)"

text \<open>
  The block list of a heap: headers at even non-null addresses, in ascending address
  order at least 8 bytes apart, linked in that order and ended by the null reference.
\<close>

definition blocks_ok :: "memory \<Rightarrow> addr list \<Rightarrow> bool" where
  "blocks_ok m bs =
     (sorted_wrt (\<lambda>a b. unat a + 8 \<le> unat b) bs \<and> (\<forall>b\<in>set bs. b \<noteq> 0 \<and> even b)
      \<and> seg m 0 bs)"

text \<open>The first address past the arena obtained from \<^verbatim>\<open>sbrk\<close>.\<close>

definition top_of :: "addr \<Rightarrow> nat" where
  "top_of brk = unat brk + 4096"

text \<open>
  Where a block ends: at the address in its next reference, or at the end of the arena
  when that reference is null.
\<close>

definition block_end :: "addr \<Rightarrow> memory \<Rightarrow> addr \<Rightarrow> nat" where
  "block_end brk m b =
     (if NEXT_ADDRESS m b = 0 then top_of brk else unat (NEXT_ADDRESS m b))"

text \<open>
  The live allocations are a map from the pointers handed out to their footprints.
  Each lies in an in-use block of the list, and the block's address plus the footprint
  is not past the block's end.
\<close>

definition live_ok :: "addr \<Rightarrow> memory \<Rightarrow> addr list \<Rightarrow> (addr \<rightharpoonup> 64 word) \<Rightarrow> bool" where
  "live_ok brk m bs L =
     (\<forall>p a. L p = Some a \<longrightarrow>
        p - SZ_BLOCK_METADATA \<in> set bs \<and> IS_INUSE m (p - SZ_BLOCK_METADATA)
        \<and> unat (p - SZ_BLOCK_METADATA) + unat a \<le> block_end brk m (p - SZ_BLOCK_METADATA))"

definition inv_bs ::
  "addr \<Rightarrow> 64 word \<Rightarrow> memory \<Rightarrow> (addr \<rightharpoonup> 64 word) \<Rightarrow> addr list \<Rightarrow> bool" where
  "inv_bs brk avail m L bs =
     (bs \<noteq> [] \<and> hd bs = brk \<and> blocks_ok m bs
      \<and> (\<forall>b\<in>set bs. unat b + unat avail \<le> top_of brk)
      \<and> live_ok brk m bs L
      \<and> (\<forall>b\<in>set bs. stuck m b \<longrightarrow> L (b + SZ_BLOCK_METADATA) = Some 0))"

definition heap_inv :: "addr \<Rightarrow> Heap \<Rightarrow> (addr \<rightharpoonup> 64 word) \<Rightarrow> bool" where
  "heap_inv brk h L =
     (size_heap h = 4096 \<and> start_of_heap h = brk
      \<and> (\<exists>bs. inv_bs brk (available_size h) (mem h) L bs))"

text \<open>
  What is assumed of the address returned by \<^verbatim>\<open>sbrk\<close>: it is not null, it is even (so
  that the low bit of a header is free for the in-use flag), and the arena and one more
  header fit below the top of the address space.
\<close>

definition brk_ok :: "addr \<Rightarrow> bool" where
  "brk_ok brk = (brk \<noteq> 0 \<and> even brk \<and> unat brk + 4104 < 2 ^ 64)"

text \<open>
  The invariant of the whole state: either the heap has not been initialised and
  nothing is live, or the initialised heap is well formed.
\<close>

definition state_inv :: "addr \<Rightarrow> Heap \<Rightarrow> (addr \<rightharpoonup> 64 word) \<Rightarrow> bool" where
  "state_inv brk h L =
     (size_heap h = 0 \<and> start_of_heap h = 0 \<and> L = Map.empty \<or> heap_inv brk h L)"

section \<open>Reachable states\<close>

text \<open>
  The states a client can bring about from program start, together with the map of
  live allocations: the pointers returned by \<^verbatim>\<open>mymalloc\<close> and not yet passed to
  \<^verbatim>\<open>myfree\<close> or discarded by \<^verbatim>\<open>reset_heap\<close>, each with its footprint. Only live
  pointers and the null pointer are released. A call that does not return, or that
  fails its second assertion, has no successor state; the refused request has one, as in
  a build without assertions.
\<close>

inductive reach :: "addr \<Rightarrow> Heap \<Rightarrow> (addr \<rightharpoonup> 64 word) \<Rightarrow> bool" for brk :: addr where
  start: "reach brk (heap0 m) Map.empty"
| allocated: "reach brk h L \<Longrightarrow> mymalloc brk h n = Some (Returned p, h') \<Longrightarrow>
     reach brk h' (L(p \<mapsto> ALIGN (n + SZ_BLOCK_METADATA)))"
| refused: "reach brk h L \<Longrightarrow> mymalloc brk h n = Some (Not_enough_space, h') \<Longrightarrow>
     reach brk h' L"
| released: "reach brk h L \<Longrightarrow> L p = Some a \<Longrightarrow> myfree h p = Some h' \<Longrightarrow>
     reach brk h' (L(p := None))"
| released_null: "reach brk h L \<Longrightarrow> myfree h 0 = Some h' \<Longrightarrow> reach brk h' L"
| reset: "reach brk h L \<Longrightarrow> reset_heap h = Some h' \<Longrightarrow> reach brk h' Map.empty"

text \<open>The bytes of a live allocation: from the pointer up to the block's address plus
  the footprint.\<close>

definition live_range :: "addr \<Rightarrow> 64 word \<Rightarrow> nat set" where
  "live_range p a = {unat p ..< unat (p - SZ_BLOCK_METADATA) + unat a}"

definition two_block_heap :: Heap where
  "two_block_heap = \<lparr>size_heap = 4096, available_size = 4048, start_of_heap = 4096,
                      mem = (\<lambda>_. 0)(4096 := 4121, 4120 := 4145)\<rparr>"

definition fresh_heap :: Heap where
  "fresh_heap = \<lparr>size_heap = 4096, available_size = 4096, start_of_heap = 4096,
                  mem = zero_store(4096 := 0)\<rparr>"

section \<open>The search loop\<close>

text \<open>
  The test the search loop of \<^verbatim>\<open>mymalloc\<close> makes on a block, as the code makes it: the
  block is free and, after \<^verbatim>\<open>do_compact\<close> has run on it, \<^verbatim>\<open>BLOCK_SIZE\<close> is at least the
  footprint. It is the code's own measure, not the size of the block.
\<close>

definition search_accepts :: "64 word \<Rightarrow> memory \<Rightarrow> addr \<Rightarrow> bool" where
  "search_accepts aux_size m b =
     (\<not> IS_INUSE m b
      \<and> (case do_compact m b of None \<Rightarrow> False | Some m' \<Rightarrow> aux_size \<le> BLOCK_SIZE m' b))"

text \<open>The blocks of the chain that starts at \<open>s\<close>.\<close>

inductive in_chain :: "memory \<Rightarrow> addr \<Rightarrow> addr \<Rightarrow> bool" for m :: memory and s :: addr where
  first: "s \<noteq> 0 \<Longrightarrow> in_chain m s s"
| step: "in_chain m s b \<Longrightarrow> NEXT_ADDRESS m b \<noteq> 0 \<Longrightarrow> in_chain m s (NEXT_ADDRESS m b)"

text \<open>Where the run of free blocks at the head of a list ends.\<close>

definition end_of_run :: "memory \<Rightarrow> addr list \<Rightarrow> addr" where
  "end_of_run m ys = hd_or (dropWhile (\<lambda>x. \<not> IS_INUSE m x) ys) 0"

section \<open>Sizes and first fit as the specification words them\<close>

text \<open>
  The size of a block as the specification defines it: the byte distance from the
  start of its payload to the start of the next block's header or, for the last block
  (next reference null), to the end of the arena. It is a distance in bytes, hence a
  natural number, and it is written without \<^verbatim>\<open>BLOCK_SIZE\<close>, with which it is compared.
\<close>

definition spec_block_size :: "Heap \<Rightarrow> addr \<Rightarrow> addr \<Rightarrow> nat" where
  "spec_block_size h b nxt =
     (if nxt = 0 then unat (start_of_heap h) + unat (size_heap h) else unat nxt)
       - (unat b + unat SZ_BLOCK_METADATA)"

text \<open>\<open>chain m p bs\<close>: the blocks from \<open>p\<close> to the terminal null reference are \<open>bs\<close>, in
  this order.\<close>

fun chain :: "memory \<Rightarrow> addr \<Rightarrow> addr list \<Rightarrow> bool" where
  "chain m p [] = (p = 0)"
| "chain m p (b # bs) = (p = b \<and> b \<noteq> 0 \<and> chain m (NEXT_ADDRESS m b) bs)"

text \<open>
  A block \<open>b\<close>, followed in the chain by the blocks \<open>ys\<close>, is adequate for a footprint
  when it is free and its size, once it is merged with the free blocks that follow it
  immediately, is at least the footprint. After the merge its next block is the first
  in-use block of \<open>ys\<close>, or none. Nothing here refers to \<^verbatim>\<open>do_compact\<close>.
\<close>

definition spec_adequate :: "64 word \<Rightarrow> Heap \<Rightarrow> addr \<Rightarrow> addr list \<Rightarrow> bool" where
  "spec_adequate aux_size h b ys =
     (\<not> IS_INUSE (mem h) b
      \<and> unat aux_size \<le> spec_block_size h b (end_of_run (mem h) ys))"

text \<open>First fit: the first adequate block of the chain, in chain order.\<close>

fun spec_first_fit :: "64 word \<Rightarrow> Heap \<Rightarrow> addr list \<Rightarrow> addr option" where
  "spec_first_fit aux_size h [] = None"
| "spec_first_fit aux_size h (b # ys) =
     (if spec_adequate aux_size h b ys then Some b else spec_first_fit aux_size h ys)"

text \<open>
  The splitting rule: the chosen block's size is at least the footprint plus one header
  plus one alignment unit.
\<close>

definition spec_splits :: "64 word \<Rightarrow> Heap \<Rightarrow> addr \<Rightarrow> addr \<Rightarrow> bool" where
  "spec_splits aux_size h b nxt =
     (unat aux_size + unat SZ_BLOCK_METADATA + unat MY_ALIGNMENT_SZ \<le> spec_block_size h b nxt)"

definition short_split_heap :: Heap where
  "short_split_heap = \<lparr>size_heap = 4096, available_size = 8, start_of_heap = 4096,
                        mem = zero_store(4096 := 8185)\<rparr>"

definition wrapped_heap :: Heap where
  "wrapped_heap = \<lparr>size_heap = 4096, available_size = 4096, start_of_heap = 4096,
                    mem = zero_store(4096 := 4097)\<rparr>"

section \<open>Bit-level facts about the tagged next reference\<close>

lemma clear_bit_even: "even (a AND NOT 1)" for a :: "64 word"
  by (simp only: even_and_iff even_not_iff) simp

lemma test_bit_odd: "(a AND 1 \<noteq> 0) = odd a" for a :: "64 word"
  by (simp add: and_one_eq mod_2_eq_odd)

lemma clear_bit_id: "even a \<Longrightarrow> a AND NOT 1 = a" for a :: "64 word"
  by (rule bit_eqI) (auto simp: bit_simps even_iff_mod_2_eq_zero bit_0 simp del: not_one_eq)

lemma set_clear_bit: "even a \<Longrightarrow> (a OR 1) AND NOT 1 = a" for a :: "64 word"
  by (rule bit_eqI) (auto simp: bit_simps bit_0 simp del: not_one_eq)

lemma set_bit_odd: "odd (a OR 1)" for a :: "64 word"
  by (simp add: even_or_iff)

lemma seven_mask: "(7::64 word) = mask 3"
  by (simp add: mask_eq_exp_minus_1)

lemma and_not_seven: "x AND NOT 7 = push_bit 3 (drop_bit 3 x)" for x :: "64 word"
  unfolding seven_mask by (rule bit_eqI) (auto simp: bit_simps)

lemma unat_and_not_seven: "unat (x AND NOT 7) = unat x div 8 * 8" for x :: "64 word"
proof -
  have a: "unat (drop_bit 3 x) = unat x div 8"
    by (simp only: unat_drop_bit_eq) (simp add: drop_bit_eq_div)
  have "unat x < 2 ^ 64"
    using unsigned_less [of x, where 'a=nat] by simp
  then have b: "unat x div 8 * 8 < 2 ^ 64"
    by linarith
  have "unat (push_bit 3 (drop_bit 3 x)) = (unat (drop_bit 3 x) * 8) mod 2 ^ 64"
    by (simp add: push_bit_eq_mult unat_word_ariths)
  also have "\<dots> = unat x div 8 * 8"
    using a b by simp
  finally show ?thesis
    by (simp only: and_not_seven)
qed

section \<open>Alignment\<close>

lemma ALIGN_eq: "ALIGN x = (x + 8) AND NOT 7"
  by (simp add: ALIGN_def MY_ALIGNMENT_SZ_def)

lemma ALIGN_unat: "unat (ALIGN x) = unat (x + 8) div 8 * 8"
  by (simp only: ALIGN_eq unat_and_not_seven)

lemma ALIGN_dvd: "8 dvd unat (ALIGN x)"
  by (simp add: ALIGN_unat)

lemma ALIGN_exact: "8 dvd unat x \<Longrightarrow> ALIGN x = x + 8"
proof -
  assume d: "8 dvd unat x"
  have "unat (x + 8) = (unat x + 8) mod 2 ^ 64"
    by (simp add: unat_word_ariths)
  moreover have "(8::nat) dvd 2 ^ 64" by simp
  ultimately have "8 dvd unat (x + 8)"
    using d by (simp add: dvd_mod)
  then have "unat (ALIGN x) = unat (x + 8)"
    by (simp add: ALIGN_unat)
  then show ?thesis by (simp only: word_unat_eq_iff)
qed

lemma ALIGN_one: "ALIGN 1 = 8"
  by (simp add: ALIGN_eq)

section \<open>The padded footprint\<close>

text \<open>
  C7: for every requested size \<open>n\<close> the footprint \<^verbatim>\<open>ALIGN(size + SZ_BLOCK_METADATA)\<close> is
  \<open>n\<close> plus the header size plus one alignment unit, rounded down to a multiple of 8
  (the sums are \<^verbatim>\<open>size_t\<close> sums); it is always a multiple of 8; and when \<open>n\<close> plus the
  header size is already a multiple of 8, the footprint is that sum plus a full extra
  unit. The last conjunct reads the same rounding on natural numbers when the sum
  does not wrap.
\<close>

theorem footprint_rounding:
  "ALIGN (n + SZ_BLOCK_METADATA) = (n + SZ_BLOCK_METADATA + MY_ALIGNMENT_SZ) AND NOT 7
   \<and> unat (ALIGN (n + SZ_BLOCK_METADATA))
       = unat (n + SZ_BLOCK_METADATA + MY_ALIGNMENT_SZ) div 8 * 8
   \<and> 8 dvd unat (ALIGN (n + SZ_BLOCK_METADATA))
   \<and> (8 dvd unat (n + SZ_BLOCK_METADATA)
        \<longrightarrow> ALIGN (n + SZ_BLOCK_METADATA) = n + SZ_BLOCK_METADATA + MY_ALIGNMENT_SZ)
   \<and> (unat n + 16 < 2 ^ 64
        \<longrightarrow> unat (ALIGN (n + SZ_BLOCK_METADATA)) = (unat n + 8 + 8) div 8 * 8)"
proof -
  have a: "ALIGN (n + 8) = (n + 8 + 8) AND NOT 7"
    by (rule ALIGN_eq)
  have b: "unat (ALIGN (n + 8)) = unat (n + 8 + 8) div 8 * 8"
    by (rule ALIGN_unat)
  have c: "8 dvd unat (ALIGN (n + 8))"
    by (rule ALIGN_dvd)
  have d: "8 dvd unat (n + 8) \<longrightarrow> ALIGN (n + 8) = n + 8 + 8"
    using ALIGN_exact [of "n + 8"] by blast
  have "unat n + 16 < 2 ^ 64 \<Longrightarrow> unat (n + 8 + 8) = unat n + 8 + 8"
    by (simp add: unat_word_ariths)
  then have e: "unat n + 16 < 2 ^ 64 \<longrightarrow> unat (ALIGN (n + 8)) = (unat n + 8 + 8) div 8 * 8"
    by (simp only: b) simp
  show ?thesis
    unfolding SZ_BLOCK_METADATA_def MY_ALIGNMENT_SZ_def
    using a b c d e by (intro conjI)
qed

theorem footprint_rounding_witness:
  "8 dvd unat ((16::64 word) + SZ_BLOCK_METADATA)
   \<and> ALIGN (16 + SZ_BLOCK_METADATA) = 32
   \<and> unat (10::64 word) + 16 < 2 ^ 64
   \<and> unat (ALIGN (10 + SZ_BLOCK_METADATA)) = 24"
  using footprint_rounding [of 16] footprint_rounding [of 10]
  by (simp add: SZ_BLOCK_METADATA_def MY_ALIGNMENT_SZ_def)

section \<open>The available counter\<close>

text \<open>
  C9: when the padded footprint exceeds the available counter (read after the lazy
  initialisation), \<^verbatim>\<open>mymalloc\<close> fails at once: the call returns for every store,
  also one whose chain is cyclic, so the chain is not scanned, and the state it leaves
  is the state it found, apart from the initialisation of a heap of size zero.
\<close>

theorem exhausted_counter_fails:
  "available_size (lazy_init brk h) < ALIGN (n + SZ_BLOCK_METADATA) \<Longrightarrow>
     mymalloc brk h n = Some (Not_enough_space, lazy_init brk h)
     \<and> (size_heap h \<noteq> 0 \<longrightarrow> lazy_init brk h = h)
     \<and> (size_heap h = 0 \<longrightarrow> lazy_init brk h = init_heap brk h)"
  by (simp add: mymalloc_def lazy_init_def Let_def)

theorem exhausted_counter_fails_witness:
  "available_size (lazy_init 4096 looping_heap) < ALIGN (10 + SZ_BLOCK_METADATA)
   \<and> mymalloc 4096 looping_heap 10 = Some (Not_enough_space, looping_heap)
   \<and> size_heap looping_heap \<noteq> 0
   \<and> available_size (lazy_init 4096 (heap0 (\<lambda>_. 0))) < ALIGN (5000 + SZ_BLOCK_METADATA)
   \<and> mymalloc 4096 (heap0 (\<lambda>_. 0)) 5000 = Some (Not_enough_space, init_heap 4096 (heap0 (\<lambda>_. 0)))
   \<and> size_heap (heap0 (\<lambda>_. 0)) = 0"
proof -
  have a: "available_size (lazy_init 4096 looping_heap) < ALIGN (10 + SZ_BLOCK_METADATA)"
    by (simp add: lazy_init_def looping_heap_def ALIGN_eq SZ_BLOCK_METADATA_def)
  have b: "available_size (lazy_init 4096 (heap0 (\<lambda>_. 0))) < ALIGN (5000 + SZ_BLOCK_METADATA)"
    by (simp add: lazy_init_def heap0_def init_heap_def ALIGN_eq SZ_BLOCK_METADATA_def)
  have c: "size_heap looping_heap \<noteq> 0" by (simp add: looping_heap_def)
  have d: "size_heap (heap0 (\<lambda>_. 0)) = 0" by (simp add: heap0_def)
  show ?thesis
    using exhausted_counter_fails [OF a] exhausted_counter_fails [OF b] a b c d
    by simp
qed


lemma one_block_heap_runs:
  "(case myfree one_block_heap 4104 of None \<Rightarrow> False | Some h \<Rightarrow> True)"
  "(case reset_heap one_block_heap of None \<Rightarrow> False | Some h \<Rightarrow> True)"
  "(case mymalloc 4096 one_block_heap 10 of Some (Returned p, h) \<Rightarrow> True | _ \<Rightarrow> False)"
  by code_simp+

text \<open>
  C4: \<^verbatim>\<open>myfree\<close> leaves the available counter unchanged, for every state and
  pointer, and so does \<^verbatim>\<open>reset_heap\<close>; an allocation that returns a pointer has
  decremented the counter by the padded footprint.
\<close>

theorem available_size_never_restored:
  "(myfree h ptr = Some h' \<longrightarrow> available_size h' = available_size h)
   \<and> (reset_heap h = Some h' \<longrightarrow> available_size h' = available_size h)
   \<and> (mymalloc brk h n = Some (Returned p, h') \<longrightarrow>
        ALIGN (n + SZ_BLOCK_METADATA) \<le> available_size (lazy_init brk h)
        \<and> available_size h'
            = available_size (lazy_init brk h) - ALIGN (n + SZ_BLOCK_METADATA))"
  by (auto simp: myfree_def reset_heap_def mymalloc_def Let_def
           split: option.splits if_splits prod.splits)

theorem available_size_never_restored_witness:
  "(\<exists>h'. myfree one_block_heap 4104 = Some h' \<and> available_size h' = 4072)
   \<and> (\<exists>h'. reset_heap one_block_heap = Some h' \<and> available_size h' = 4072)
   \<and> (\<exists>p h'. mymalloc 4096 one_block_heap 10 = Some (Returned p, h')
         \<and> available_size h' = 4048)"
proof (intro conjI)
  obtain h1 where h1: "myfree one_block_heap 4104 = Some h1"
    using one_block_heap_runs(1) by (auto split: option.splits)
  with available_size_never_restored [of one_block_heap 4104 h1]
  show "\<exists>h'. myfree one_block_heap 4104 = Some h' \<and> available_size h' = 4072"
    by (simp add: one_block_heap_def)
next
  obtain h2 where h2: "reset_heap one_block_heap = Some h2"
    using one_block_heap_runs(2) by (auto split: option.splits)
  with available_size_never_restored [of one_block_heap _ h2]
  show "\<exists>h'. reset_heap one_block_heap = Some h' \<and> available_size h' = 4072"
    by (simp add: one_block_heap_def)
next
  obtain p h3 where h3: "mymalloc 4096 one_block_heap 10 = Some (Returned p, h3)"
    using one_block_heap_runs(3) by (auto split: option.splits outcome.splits)
  with available_size_never_restored [of one_block_heap _ h3 4096 10 p]
  show "\<exists>p h'. mymalloc 4096 one_block_heap 10 = Some (Returned p, h')
         \<and> available_size h' = 4048"
    by (simp add: one_block_heap_def lazy_init_def ALIGN_eq SZ_BLOCK_METADATA_def)
qed

section \<open>Reading and writing headers\<close>

lemma IS_INUSE_odd: "IS_INUSE m x = odd (m x)"
  by (simp add: IS_INUSE_def IN_USE_BIT_def test_bit_odd)

lemma NEXT_ADDRESS_even [simp]: "even (NEXT_ADDRESS m x)"
  by (simp only: NEXT_ADDRESS_def IN_USE_BIT_def clear_bit_even)

lemma NEXT_ADDRESS_free: "\<not> IS_INUSE m x \<Longrightarrow> NEXT_ADDRESS m x = m x"
  using clear_bit_id [of "m x"]
  by (simp add: NEXT_ADDRESS_def IN_USE_BIT_def IS_INUSE_odd del: not_one_eq)

lemma NEXT_ADDRESS_upd:
  "NEXT_ADDRESS (m(a := v)) x = (if x = a then v AND NOT 1 else NEXT_ADDRESS m x)"
  by (simp add: NEXT_ADDRESS_def IN_USE_BIT_def del: not_one_eq)

lemma NEXT_ADDRESS_upd_even:
  "even v \<Longrightarrow> NEXT_ADDRESS (m(a := v)) x = (if x = a then v else NEXT_ADDRESS m x)"
  by (simp only: NEXT_ADDRESS_upd clear_bit_id)

lemma IS_INUSE_upd: "IS_INUSE (m(a := v)) x = (if x = a then odd v else IS_INUSE m x)"
  by (simp add: IS_INUSE_odd)

lemma NEXT_ADDRESS_UNSET [simp]: "NEXT_ADDRESS (UNSET_INUSE m a) x = NEXT_ADDRESS m x"
  by (simp add: UNSET_INUSE_def NEXT_ADDRESS_def IN_USE_BIT_def and.assoc del: not_one_eq)

lemma IS_INUSE_UNSET [simp]: "IS_INUSE (UNSET_INUSE m a) x = (x \<noteq> a \<and> IS_INUSE m x)"
  using clear_bit_even [of "m a"]
  by (simp add: IS_INUSE_odd UNSET_INUSE_def IN_USE_BIT_def del: not_one_eq)

lemma UNSET_INUSE_free: "\<not> IS_INUSE m a \<Longrightarrow> UNSET_INUSE m a = m"
  using clear_bit_id [of "m a"]
  by (simp add: UNSET_INUSE_def IN_USE_BIT_def IS_INUSE_odd del: not_one_eq)

lemma UNSET_INUSE_apply: "UNSET_INUSE m a a = NEXT_ADDRESS m a"
  by (simp add: UNSET_INUSE_def NEXT_ADDRESS_def)

section \<open>Coalescing\<close>

lemma compact_walk_stop: "lst = 0 \<or> IS_INUSE m lst \<Longrightarrow> compact_walk m lst = Some lst"
  by (subst compact_walk.simps) auto

lemma compact_walk_step:
  "lst \<noteq> 0 \<Longrightarrow> \<not> IS_INUSE m lst \<Longrightarrow> compact_walk m lst = compact_walk m (NEXT_ADDRESS m lst)"
  by (subst compact_walk.simps) simp

lemma free_run_compact_walk:
  "free_run m b xs l \<Longrightarrow> l = 0 \<or> IS_INUSE m l \<Longrightarrow> compact_walk m b = Some l"
proof (induction xs arbitrary: b)
  case Nil
  then show ?case by (simp add: compact_walk_stop)
next
  case (Cons x xs)
  then show ?case by (simp add: compact_walk_step)
qed

lemma compact_walk_free_run:
  "compact_walk m b = Some l \<Longrightarrow> (\<exists>xs. free_run m b xs l) \<and> (l = 0 \<or> IS_INUSE m l)"
proof (induction m b l rule: compact_walk.raw_induct [rotated 1, consumes 1])
  case (1 cw m lst l)
  show ?case
  proof (cases "lst \<noteq> 0 \<and> \<not> IS_INUSE m lst")
    case True
    with 1(2) have b: "cw m (NEXT_ADDRESS m lst) = Some l"
      by simp
    from 1(1) [OF b]
    obtain xs where "free_run m (NEXT_ADDRESS m lst) xs l" and "l = 0 \<or> IS_INUSE m l"
      by blast
    with True have "free_run m lst (lst # xs) l" by simp
    then show ?thesis using \<open>l = 0 \<or> IS_INUSE m l\<close> by blast
  next
    case False
    with 1 have "l = lst" by auto
    then have "free_run m lst [] l" by simp
    then show ?thesis using False \<open>l = lst\<close> by blast
  qed
qed

lemma compact_walk_iff:
  "compact_walk m b = Some l \<longleftrightarrow> (\<exists>xs. free_run m b xs l) \<and> (l = 0 \<or> IS_INUSE m l)"
  using compact_walk_free_run free_run_compact_walk by blast

lemma free_run_result_even: "free_run m b xs l \<Longrightarrow> xs \<noteq> [] \<Longrightarrow> even l"
proof (induction xs arbitrary: b)
  case Nil
  then show ?case by simp
next
  case (Cons x xs)
  then show ?case by (cases xs) auto
qed

lemma free_run_nonempty: "free_run m b xs l \<Longrightarrow> b \<noteq> 0 \<Longrightarrow> \<not> IS_INUSE m b \<Longrightarrow> l = 0 \<or> IS_INUSE m l \<Longrightarrow> xs \<noteq> []"
  by (cases xs) auto

lemma compact_walk_free_even:
  assumes "compact_walk m b = Some l" "b \<noteq> 0" "\<not> IS_INUSE m b"
  shows "even l" "l \<noteq> b"
proof -
  from assms(1) obtain xs where r: "free_run m b xs l" and s: "l = 0 \<or> IS_INUSE m l"
    using compact_walk_free_run by blast
  with assms show "even l"
    using free_run_nonempty free_run_result_even by blast
  from s assms show "l \<noteq> b" by auto
qed

text \<open>
  C5: for a non-null free starting block, \<^verbatim>\<open>do_compact\<close> returns exactly when the walk
  along next references, through free blocks only, arrives at an in-use block or at the
  terminal null reference; it then stores that address in the starting block's header
  and changes no other word of the store. The starting block stays free and its next
  reference is the address stored.
\<close>

theorem do_compact_repoints:
  assumes "block \<noteq> 0" and "\<not> IS_INUSE m block"
  shows "do_compact m block = Some m' \<longleftrightarrow>
           (\<exists>xs l. free_run m block xs l \<and> (l = 0 \<or> IS_INUSE m l)
                    \<and> m' = m(block := l)
                    \<and> NEXT_ADDRESS m' block = l \<and> \<not> IS_INUSE m' block)"
proof
  assume "do_compact m block = Some m'"
  then obtain l where w: "compact_walk m block = Some l" and m': "m' = m(block := l)"
    using assms(1) by (auto simp: do_compact_def split: option.splits)
  from w obtain xs where "free_run m block xs l" "l = 0 \<or> IS_INUSE m l"
    using compact_walk_free_run by blast
  moreover have "even l"
    using compact_walk_free_even(1) [OF w assms] .
  then have "NEXT_ADDRESS m' block = l" "\<not> IS_INUSE m' block"
    by (simp_all add: m' NEXT_ADDRESS_upd_even IS_INUSE_upd)
  ultimately show "\<exists>xs l. free_run m block xs l \<and> (l = 0 \<or> IS_INUSE m l)
                    \<and> m' = m(block := l)
                    \<and> NEXT_ADDRESS m' block = l \<and> \<not> IS_INUSE m' block"
    using m' by blast
next
  assume "\<exists>xs l. free_run m block xs l \<and> (l = 0 \<or> IS_INUSE m l)
                    \<and> m' = m(block := l)
                    \<and> NEXT_ADDRESS m' block = l \<and> \<not> IS_INUSE m' block"
  then obtain xs l where "free_run m block xs l" "l = 0 \<or> IS_INUSE m l" "m' = m(block := l)"
    by blast
  then show "do_compact m block = Some m'"
    using assms(1) by (simp add: do_compact_def free_run_compact_walk)
qed

theorem do_compact_repoints_witness:
  "(4096::addr) \<noteq> 0 \<and> \<not> IS_INUSE two_free_heap 4096
   \<and> do_compact two_free_heap 4096 = Some (two_free_heap(4096 := 4144))
   \<and> free_run two_free_heap 4096 [4096, 4120] 4144 \<and> IS_INUSE two_free_heap 4144"
proof -
  have a: "(4096::addr) \<noteq> 0" by simp
  have b: "\<not> IS_INUSE two_free_heap 4096"
    by (simp add: two_free_heap_def IS_INUSE_odd)
  have c: "free_run two_free_heap 4096 [4096, 4120] 4144"
    by (simp add: two_free_heap_def IS_INUSE_odd NEXT_ADDRESS_def IN_USE_BIT_def)
  have d: "IS_INUSE two_free_heap 4144"
    by (simp add: two_free_heap_def IS_INUSE_odd)
  have e: "NEXT_ADDRESS (two_free_heap(4096 := 4144)) 4096 = 4144"
    by (simp add: NEXT_ADDRESS_def IN_USE_BIT_def)
  have f: "\<not> IS_INUSE (two_free_heap(4096 := 4144)) 4096"
    by (simp add: IS_INUSE_odd)
  from do_compact_repoints [OF a b, of "two_free_heap(4096 := 4144)"] c d e f
  have "do_compact two_free_heap 4096 = Some (two_free_heap(4096 := 4144))"
    by blast
  with a b c d show ?thesis by blast
qed

section \<open>Release\<close>

lemma do_compact_Some:
  "do_compact m b = Some m' \<longleftrightarrow> b \<noteq> 0 \<and> (\<exists>l. compact_walk m b = Some l \<and> m' = m(b := l))"
  by (auto simp: do_compact_def split: option.splits)

lemma do_compact_again:
  assumes "do_compact m b = Some m'" and "\<not> IS_INUSE m b"
  shows "do_compact m' b = Some m'"
proof -
  from assms(1) obtain l where b: "b \<noteq> 0" and w: "compact_walk m b = Some l"
    and m': "m' = m(b := l)"
    by (auto simp: do_compact_Some)
  have ev: "even l" and ne: "l \<noteq> b"
    using compact_walk_free_even [OF w b assms(2)] by blast+
  have stop: "l = 0 \<or> IS_INUSE m l"
    using w compact_walk_free_run by blast
  have "\<not> IS_INUSE m' b" "NEXT_ADDRESS m' b = l"
    using ev by (simp_all add: m' IS_INUSE_upd NEXT_ADDRESS_upd_even)
  moreover have "l = 0 \<or> IS_INUSE m' l"
    using stop ne by (simp add: m' IS_INUSE_upd)
  ultimately have "compact_walk m' b = Some l"
    using b by (simp add: compact_walk_step compact_walk_stop)
  moreover have "m'(b := l) = m'"
    by (simp add: m')
  ultimately show ?thesis
    using b by (simp add: do_compact_Some)
qed

text \<open>
  C10: whenever \<^verbatim>\<open>myfree\<close> returns for a pointer, a second call with the same
  pointer right after it returns as well and leaves the state exactly as the first call
  left it.
\<close>

theorem myfree_twice:
  assumes "myfree h ptr = Some h1"
  shows "myfree h1 ptr = Some h1"
proof (cases "ptr = 0")
  case True
  with assms show ?thesis by (simp add: myfree_def)
next
  case False
  let ?tmp = "ptr - SZ_BLOCK_METADATA"
  let ?m0 = "UNSET_INUSE (mem h) ?tmp"
  from assms False obtain m1 where c: "do_compact ?m0 ?tmp = Some m1" and h1: "h1 = h\<lparr>mem := m1\<rparr>"
    by (auto simp: myfree_def Let_def)
  have free0: "\<not> IS_INUSE ?m0 ?tmp" by simp
  have again: "do_compact m1 ?tmp = Some m1"
    using do_compact_again [OF c free0] .
  from c obtain l where w: "compact_walk ?m0 ?tmp = Some l" and m1: "m1 = ?m0(?tmp := l)"
    and nz: "?tmp \<noteq> 0"
    by (auto simp: do_compact_Some)
  have "even l"
    using compact_walk_free_even(1) [OF w nz free0] .
  then have "\<not> IS_INUSE m1 ?tmp"
    by (simp add: m1 IS_INUSE_upd)
  then have "UNSET_INUSE m1 ?tmp = m1"
    by (rule UNSET_INUSE_free)
  with again False show ?thesis
    by (simp add: myfree_def Let_def h1)
qed

theorem myfree_twice_witness:
  "\<exists>h1. myfree one_block_heap 4104 = Some h1 \<and> myfree h1 4104 = Some h1"
proof -
  obtain h1 where h1: "myfree one_block_heap 4104 = Some h1"
    using one_block_heap_runs(1) by (auto split: option.splits)
  from myfree_twice [OF h1] h1 show ?thesis by blast
qed

section \<open>Splitting\<close>

lemma ALIGN_even [simp]: "even (ALIGN x)"
  unfolding ALIGN_eq by (simp only: even_and_iff even_not_iff) simp

lemma place_eq:
  "place aux_size m tmp =
     (if aux_size + SZ_BLOCK_METADATA + MY_ALIGNMENT_SZ \<le> BLOCK_SIZE m tmp
      then m(tmp + aux_size := NEXT_ADDRESS m tmp, tmp := (tmp + aux_size) OR IN_USE_BIT)
      else m(tmp := m tmp OR IN_USE_BIT))"
  by (auto simp: place_def Let_def SET_INUSE_def UNSET_INUSE_def NEXT_ADDRESS_def ALIGN_one
                 MY_ALIGNMENT_SZ_def fun_upd_twist)

lemma set_bit_next: "(a OR 1) AND NOT 1 = a AND NOT 1" for a :: "64 word"
  by (rule bit_eqI) (auto simp: bit_simps bit_0 simp del: not_one_eq)

lemma NEXT_ADDRESS_upd_set:
  "even v \<Longrightarrow> NEXT_ADDRESS (m(a := v OR IN_USE_BIT)) a = v"
  using set_clear_bit [of v] by (simp add: NEXT_ADDRESS_def IN_USE_BIT_def)

lemma IS_INUSE_upd_set: "IS_INUSE (m(a := v OR IN_USE_BIT)) a"
  by (simp add: IS_INUSE_odd IN_USE_BIT_def set_bit_odd)

lemma NEXT_ADDRESS_upd_other: "x \<noteq> a \<Longrightarrow> NEXT_ADDRESS (m(a := v)) x = NEXT_ADDRESS m x"
  by (simp add: NEXT_ADDRESS_def)

lemma IS_INUSE_upd_other: "x \<noteq> a \<Longrightarrow> IS_INUSE (m(a := v)) x = IS_INUSE m x"
  by (simp add: IS_INUSE_def)

lemma mymalloc_Returned:
  "mymalloc brk h0 n = Some (Returned p, h') \<longleftrightarrow>
     ALIGN (n + SZ_BLOCK_METADATA) \<le> available_size (lazy_init brk h0)
     \<and> (\<exists>m tmp. find_fit (ALIGN (n + SZ_BLOCK_METADATA)) (mem (lazy_init brk h0))
                     (start_of_heap (lazy_init brk h0)) = Some (m, tmp)
          \<and> tmp \<noteq> 0 \<and> p = tmp + SZ_BLOCK_METADATA
          \<and> h' = (lazy_init brk h0)
                   \<lparr>available_size := available_size (lazy_init brk h0)
                                        - ALIGN (n + SZ_BLOCK_METADATA),
                    mem := place (ALIGN (n + SZ_BLOCK_METADATA)) m tmp\<rparr>)"
  by (auto simp: mymalloc_def Let_def split: option.splits)

text \<open>
  The store an allocation that returns leaves, from the block \<open>tmp\<close> the search
  stopped at and the store \<open>m\<close> the search left: the split is made exactly when
  \<^verbatim>\<open>BLOCK_SIZE\<close> is at least the footprint plus one header plus one alignment unit.
\<close>

lemma placement_after_search:
  assumes "mymalloc brk h0 n = Some (Returned p, h')"
  shows "\<exists>m tmp.
           find_fit (ALIGN (n + SZ_BLOCK_METADATA)) (mem (lazy_init brk h0))
                    (start_of_heap (lazy_init brk h0)) = Some (m, tmp)
           \<and> tmp \<noteq> 0 \<and> p = tmp + SZ_BLOCK_METADATA
           \<and> (if ALIGN (n + SZ_BLOCK_METADATA) + SZ_BLOCK_METADATA + MY_ALIGNMENT_SZ
                   \<le> BLOCK_SIZE m tmp
               then mem h' = m(tmp + ALIGN (n + SZ_BLOCK_METADATA) := NEXT_ADDRESS m tmp,
                               tmp := (tmp + ALIGN (n + SZ_BLOCK_METADATA)) OR IN_USE_BIT)
                    \<and> (even tmp \<longrightarrow>
                          NEXT_ADDRESS (mem h') tmp = tmp + ALIGN (n + SZ_BLOCK_METADATA))
                    \<and> (ALIGN (n + SZ_BLOCK_METADATA) \<noteq> 0 \<longrightarrow>
                          \<not> IS_INUSE (mem h') (tmp + ALIGN (n + SZ_BLOCK_METADATA))
                          \<and> NEXT_ADDRESS (mem h') (tmp + ALIGN (n + SZ_BLOCK_METADATA))
                              = NEXT_ADDRESS m tmp)
               else mem h' = m(tmp := m tmp OR IN_USE_BIT)
                    \<and> BLOCK_SIZE (mem h') tmp = BLOCK_SIZE m tmp)
           \<and> IS_INUSE (mem h') tmp"
proof -
  let ?aux = "ALIGN (n + SZ_BLOCK_METADATA)"
  let ?h = "lazy_init brk h0"
  from assms obtain m tmp where
    f: "find_fit ?aux (mem ?h) (start_of_heap ?h) = Some (m, tmp)"
    and t: "tmp \<noteq> 0" "p = tmp + SZ_BLOCK_METADATA"
    and m': "mem h' = place ?aux m tmp"
    by (auto simp: mymalloc_Returned)
  have used: "IS_INUSE (mem h') tmp"
    by (simp add: m' place_eq IS_INUSE_upd_set)
  show ?thesis
  proof (cases "?aux + SZ_BLOCK_METADATA + MY_ALIGNMENT_SZ \<le> BLOCK_SIZE m tmp")
    case True
    then have eq: "mem h' = m(tmp + ?aux := NEXT_ADDRESS m tmp, tmp := (tmp + ?aux) OR IN_USE_BIT)"
      by (simp add: m' place_eq)
    have a: "even tmp \<longrightarrow> NEXT_ADDRESS (mem h') tmp = tmp + ?aux"
      by (simp add: eq NEXT_ADDRESS_upd_set)
    have b: "?aux \<noteq> 0 \<longrightarrow> \<not> IS_INUSE (mem h') (tmp + ?aux)
               \<and> NEXT_ADDRESS (mem h') (tmp + ?aux) = NEXT_ADDRESS m tmp"
    proof
      assume "?aux \<noteq> 0"
      then have ne: "tmp + ?aux \<noteq> tmp" by simp
      show "\<not> IS_INUSE (mem h') (tmp + ?aux)
               \<and> NEXT_ADDRESS (mem h') (tmp + ?aux) = NEXT_ADDRESS m tmp"
        unfolding eq
        by (simp only: NEXT_ADDRESS_upd_other [OF ne] IS_INUSE_upd_other [OF ne])
           (simp add: NEXT_ADDRESS_upd_even IS_INUSE_upd)
    qed
    from f t True eq a b used show ?thesis by auto
  next
    case False
    then have eq: "mem h' = m(tmp := m tmp OR IN_USE_BIT)"
      by (simp add: m' place_eq)
    have "BLOCK_SIZE (mem h') tmp = BLOCK_SIZE m tmp"
      using set_bit_next [of "m tmp"]
      by (simp add: eq BLOCK_SIZE_def NEXT_ADDRESS_def IN_USE_BIT_def)
    with f t False eq used show ?thesis by auto
  qed
qed

section \<open>Unfolding the loops one step\<close>

lemma reset_walk_stop: "reset_walk m 0 = Some m"
  by (subst reset_walk.simps) simp

lemma reset_walk_step:
  "tmp \<noteq> 0 \<Longrightarrow> reset_walk m tmp = reset_walk (UNSET_INUSE m tmp) (NEXT_ADDRESS m tmp)"
  by (subst reset_walk.simps) simp

lemma find_fit_null: "find_fit aux_size m 0 = Some (m, 0)"
  by (subst find_fit.simps) simp

lemma find_fit_used:
  "tmp \<noteq> 0 \<Longrightarrow> IS_INUSE m tmp \<Longrightarrow>
     find_fit aux_size m tmp = find_fit aux_size m (NEXT_ADDRESS m tmp)"
  by (subst find_fit.simps) simp

lemma find_fit_free:
  "tmp \<noteq> 0 \<Longrightarrow> \<not> IS_INUSE m tmp \<Longrightarrow> do_compact m tmp = Some m' \<Longrightarrow>
     find_fit aux_size m tmp =
       (if aux_size \<le> BLOCK_SIZE m' tmp then Some (m', tmp)
        else find_fit aux_size m' (NEXT_ADDRESS m' tmp))"
  by (subst find_fit.simps) simp

lemma find_fit_diverges:
  "tmp \<noteq> 0 \<Longrightarrow> \<not> IS_INUSE m tmp \<Longrightarrow> do_compact m tmp = None \<Longrightarrow>
     find_fit aux_size m tmp = None"
  by (subst find_fit.simps) simp

section \<open>The size of the last block\<close>

text \<open>
  C3: \<^verbatim>\<open>BLOCK_SIZE\<close> is the next reference minus the payload address for every block,
  also for the last one, whose next reference is null: there the subtraction wraps. On
  a fresh arena at 4096 the only block has 4088 bytes from its payload to the end of the
  arena, \<^verbatim>\<open>BLOCK_SIZE\<close> gives \<open>2^64 - 4104\<close>, a request with footprint 4096 is accepted,
  and the split stores a header at 8192, the first address past the arena.
\<close>

theorem last_block_size_wraps:
  "BLOCK_SIZE m x = NEXT_ADDRESS m x - (x + SZ_BLOCK_METADATA)
   \<and> BLOCK_SIZE (mem (init_heap 4096 (heap0 zero_store))) 4096 = 18446744073709547512
   \<and> ALIGN (4080 + SZ_BLOCK_METADATA) = 4096
   \<and> mymalloc 4096 (heap0 zero_store) 4080 = Some (Returned 4104, full_heap)"
proof -
  let ?m = "zero_store(4096 := 0)"
  have a: "BLOCK_SIZE (mem (init_heap 4096 (heap0 zero_store))) 4096 = 18446744073709547512"
    by (simp add: BLOCK_SIZE_def NEXT_ADDRESS_def init_heap_def heap0_def SZ_BLOCK_METADATA_def)
  have b: "ALIGN (4080 + SZ_BLOCK_METADATA) = 4096"
    by (simp add: ALIGN_eq SZ_BLOCK_METADATA_def)
  have free: "\<not> IS_INUSE ?m 4096"
    by (simp add: IS_INUSE_odd)
  have "compact_walk ?m 4096 = Some 0"
    using free by (simp add: compact_walk_step compact_walk_stop NEXT_ADDRESS_def)
  then have c: "do_compact ?m 4096 = Some ?m"
    by (simp add: do_compact_def)
  have sz: "BLOCK_SIZE ?m 4096 = 18446744073709547512"
    by (simp add: BLOCK_SIZE_def NEXT_ADDRESS_def SZ_BLOCK_METADATA_def)
  have f: "find_fit 4096 ?m 4096 = Some (?m, 4096)"
    using find_fit_free [OF _ free c, of 4096] by (simp add: sz)
  have p: "place 4096 ?m 4096 = zero_store(4096 := 8193)"
  proof -
    have "place 4096 ?m 4096 = ?m(8192 := 0, 4096 := 8193)"
      by (simp add: place_eq sz SZ_BLOCK_METADATA_def MY_ALIGNMENT_SZ_def
                    NEXT_ADDRESS_def IN_USE_BIT_def)
    also have "\<dots> = zero_store(4096 := 8193)"
      by (rule ext) (simp add: zero_store_def)
    finally show ?thesis .
  qed
  have "mymalloc 4096 (heap0 zero_store) 4080 = Some (Returned 4104, full_heap)"
    using f p
    by (simp add: mymalloc_def lazy_init_def heap0_def init_heap_def full_heap_def
                  SZ_BLOCK_METADATA_def ALIGN_eq)
  with a b show ?thesis
    by (simp add: BLOCK_SIZE_def)
qed

section \<open>Block lists\<close>

lemma hd_or_simps [simp]: "hd_or [] e = e" "hd_or (c # cs) e = c"
  by (simp_all add: hd_or_def)

lemma hd_or_append: "hd_or (xs @ ys) e = hd_or xs (hd_or ys e)"
  by (cases xs) simp_all

lemma seg_append: "seg m e (xs @ ys) = (seg m (hd_or ys e) xs \<and> seg m e ys)"
  by (induction xs) (auto simp: hd_or_append)

lemma stuck_cong: "m' b = m b \<Longrightarrow> stuck m' b = stuck m b"
  by (simp add: stuck_def IS_INUSE_def NEXT_ADDRESS_def)

lemma seg_cong: "(\<And>x. x \<in> set bs \<Longrightarrow> m' x = m x) \<Longrightarrow> seg m' e bs = seg m e bs"
proof (induction bs)
  case Nil
  then show ?case by simp
next
  case (Cons b bs)
  then have "m' b = m b" by simp
  then have "NEXT_ADDRESS m' b = NEXT_ADDRESS m b" "stuck m' b = stuck m b"
    by (simp_all add: stuck_def IS_INUSE_def NEXT_ADDRESS_def)
  with Cons show ?case by simp
qed

lemma seg_upd: "b \<notin> set bs \<Longrightarrow> seg (m(b := v)) e bs = seg m e bs"
  by (rule seg_cong) auto

lemma gap_distinct: "sorted_wrt (\<lambda>a b. unat a + 8 \<le> unat b) (bs :: addr list) \<Longrightarrow> distinct bs"
  by (induction bs) auto

lemma free_not_stuck: "\<not> IS_INUSE m b \<Longrightarrow> \<not> stuck m b"
  by (simp add: stuck_def)

text \<open>From a free block of the list the walk of \<^verbatim>\<open>do_compact\<close> ends, at the first
  in-use block after it or at null.\<close>

lemma compact_walk_seg:
  "seg m 0 (b # ys) \<Longrightarrow> \<forall>x\<in>set (b # ys). x \<noteq> 0 \<Longrightarrow> \<not> IS_INUSE m b \<Longrightarrow>
     compact_walk m b = Some (hd_or (dropWhile (\<lambda>x. \<not> IS_INUSE m x) ys) 0)"
proof (induction ys arbitrary: b)
  case Nil
  then have "NEXT_ADDRESS m b = 0" by (simp add: free_not_stuck)
  with Nil show ?case by (simp add: compact_walk_step compact_walk_stop)
next
  case (Cons c zs)
  then have nx: "NEXT_ADDRESS m b = c" by (simp add: free_not_stuck)
  from Cons.prems have st: "compact_walk m b = compact_walk m c"
    by (simp add: compact_walk_step nx)
  show ?case
  proof (cases "IS_INUSE m c")
    case True
    then show ?thesis by (simp add: st compact_walk_stop)
  next
    case False
    with Cons.IH [of c] Cons.prems show ?thesis by (simp add: st)
  qed
qed

lemma gap_dropWhile:
  "sorted_wrt (\<lambda>a b. unat a + 8 \<le> unat b) (pre @ b # ys) \<Longrightarrow>
   sorted_wrt (\<lambda>a b. unat a + 8 \<le> unat b) (pre @ b # dropWhile P (ys :: addr list))"
proof -
  assume s: "sorted_wrt (\<lambda>a b. unat a + 8 \<le> unat b) (pre @ b # ys)"
  have sub: "set (dropWhile P ys) \<subseteq> set ys"
    by (auto dest: set_dropWhileD)
  have "sorted_wrt (\<lambda>a b. unat a + 8 \<le> unat b) (takeWhile P ys @ dropWhile P ys)"
    using s by (simp add: sorted_wrt_append)
  then have "sorted_wrt (\<lambda>a b. unat a + 8 \<le> unat b) (dropWhile P ys)"
    by (simp only: sorted_wrt_append)
  with s sub show ?thesis
    by (auto simp: sorted_wrt_append)
qed

lemma blocks_ok_compact:
  assumes ok: "blocks_ok m (pre @ b # ys)" and free: "\<not> IS_INUSE m b"
  defines "rest \<equiv> dropWhile (\<lambda>x. \<not> IS_INUSE m x) ys"
  shows "do_compact m b = Some (m(b := hd_or rest 0))"
    and "blocks_ok (m(b := hd_or rest 0)) (pre @ b # rest)"
proof -
  let ?l = "hd_or rest 0"
  let ?m' = "m(b := ?l)"
  from ok have srt: "sorted_wrt (\<lambda>a b. unat a + 8 \<le> unat b) (pre @ b # ys)"
    and nz: "\<forall>x\<in>set (pre @ b # ys). x \<noteq> 0 \<and> even x"
    and sg: "seg m 0 (pre @ b # ys)"
    by (simp_all add: blocks_ok_def)
  from sg have sg_pre: "seg m b pre" and sg_b: "seg m 0 (b # ys)"
    by (simp_all add: seg_append)
  have "compact_walk m b = Some ?l"
    unfolding rest_def using sg_b nz free by (intro compact_walk_seg) auto
  moreover from nz have "b \<noteq> 0" by simp
  ultimately show "do_compact m b = Some ?m'"
    by (simp add: do_compact_def)
  have sub: "set rest \<subseteq> set ys"
    unfolding rest_def by (auto dest: set_dropWhileD)
  have dist: "distinct (pre @ b # ys)"
    using srt by (rule gap_distinct)
  then have b_pre: "b \<notin> set pre" and b_rest: "b \<notin> set rest"
    using sub by auto
  have ev: "even ?l"
  proof (cases rest)
    case Nil
    then show ?thesis by simp
  next
    case (Cons c cs)
    with sub nz show ?thesis by auto
  qed
  have "seg m 0 (takeWhile (\<lambda>x. \<not> IS_INUSE m x) ys @ rest)"
    using sg_b by (simp add: rest_def)
  then have sg_rest: "seg m 0 rest"
    by (simp only: seg_append)
  have "seg ?m' 0 (pre @ b # rest)"
    using sg_pre sg_rest b_pre b_rest ev
    by (simp add: seg_append seg_upd NEXT_ADDRESS_upd_even)
  moreover have "sorted_wrt (\<lambda>a b. unat a + 8 \<le> unat b) (pre @ b # rest)"
    unfolding rest_def using srt by (rule gap_dropWhile)
  moreover have "\<forall>x\<in>set (pre @ b # rest). x \<noteq> 0 \<and> even x"
    using nz sub by auto
  ultimately show "blocks_ok ?m' (pre @ b # rest)"
    by (simp add: blocks_ok_def)
qed

lemma block_end_cong: "m' b = m b \<Longrightarrow> block_end brk m' b = block_end brk m b"
  by (simp add: block_end_def NEXT_ADDRESS_def)

lemma IS_INUSE_cong: "m' b = m b \<Longrightarrow> IS_INUSE m' b = IS_INUSE m b"
  by (simp add: IS_INUSE_def)

lemma live_ok_cong:
  assumes "live_ok brk m bs L"
    and "\<And>x. x \<in> set bs \<Longrightarrow> IS_INUSE m x \<Longrightarrow> x \<in> set bs' \<and> m' x = m x"
  shows "live_ok brk m' bs' L"
  unfolding live_ok_def
proof (intro allI impI)
  fix p a assume "L p = Some a"
  with assms(1) have x: "p - SZ_BLOCK_METADATA \<in> set bs" "IS_INUSE m (p - SZ_BLOCK_METADATA)"
    and le: "unat (p - SZ_BLOCK_METADATA) + unat a \<le> block_end brk m (p - SZ_BLOCK_METADATA)"
    by (auto simp: live_ok_def)
  from assms(2) [OF x] have in': "p - SZ_BLOCK_METADATA \<in> set bs'"
    and eq: "m' (p - SZ_BLOCK_METADATA) = m (p - SZ_BLOCK_METADATA)"
    by auto
  from x le in' show "p - SZ_BLOCK_METADATA \<in> set bs' \<and> IS_INUSE m' (p - SZ_BLOCK_METADATA)
        \<and> unat (p - SZ_BLOCK_METADATA) + unat a \<le> block_end brk m' (p - SZ_BLOCK_METADATA)"
    using block_end_cong [of m' "p - SZ_BLOCK_METADATA" m brk]
      IS_INUSE_cong [of m' "p - SZ_BLOCK_METADATA" m] eq
    by simp
qed

lemma compact_inv:
  assumes inv: "inv_bs brk avail m L bs" and b: "b \<in> set bs" and free: "\<not> IS_INUSE m b"
  shows "\<exists>l bs'. do_compact m b = Some (m(b := l)) \<and> even l
           \<and> inv_bs brk avail (m(b := l)) L bs'
           \<and> b \<in> set bs' \<and> set bs' \<subseteq> set bs \<and> (l = 0 \<or> l \<in> set bs')"
proof -
  from b obtain pre ys where bs: "bs = pre @ b # ys"
    by (auto dest: split_list)
  define rest where "rest = dropWhile (\<lambda>x. \<not> IS_INUSE m x) ys"
  define l where "l = hd_or rest 0"
  let ?m' = "m(b := l)"
  let ?bs' = "pre @ b # rest"
  from inv have ok: "blocks_ok m (pre @ b # ys)"
    and hd: "bs \<noteq> []" "hd bs = brk"
    and bound: "\<forall>x\<in>set bs. unat x + unat avail \<le> top_of brk"
    and live: "live_ok brk m bs L"
    and st: "\<forall>x\<in>set bs. stuck m x \<longrightarrow> L (x + SZ_BLOCK_METADATA) = Some 0"
    by (simp_all add: inv_bs_def bs)
  have c: "do_compact m b = Some ?m'" and ok': "blocks_ok ?m' ?bs'"
    using blocks_ok_compact [OF ok free] by (simp_all add: l_def rest_def)
  have sub_rest: "set rest \<subseteq> set ys"
    unfolding rest_def by (auto dest: set_dropWhileD)
  then have sub: "set ?bs' \<subseteq> set bs"
    by (auto simp: bs)
  have lz: "l = 0 \<or> l \<in> set ?bs'"
    by (cases rest) (simp_all add: l_def)
  from ok' have "\<forall>x\<in>set ?bs'. x \<noteq> 0 \<and> even x"
    by (simp add: blocks_ok_def)
  with lz have ev: "even l" by auto
  have keep: "x \<in> set ?bs' \<and> ?m' x = m x" if "x \<in> set bs" "IS_INUSE m x" for x
  proof -
    from that free have ne: "x \<noteq> b" by auto
    have "x \<in> set rest" if "x \<in> set ys"
    proof -
      have "set ys = set (takeWhile (\<lambda>x. \<not> IS_INUSE m x) ys) \<union> set rest"
        unfolding rest_def by (metis set_append takeWhile_dropWhile_id)
      moreover have "x \<notin> set (takeWhile (\<lambda>x. \<not> IS_INUSE m x) ys)"
        using \<open>IS_INUSE m x\<close> by (auto dest: set_takeWhileD)
      ultimately show ?thesis using that by auto
    qed
    with that(1) ne show ?thesis by (auto simp: bs)
  qed
  have live': "live_ok brk ?m' ?bs' L"
    using live keep by (rule live_ok_cong)
  have st': "\<forall>x\<in>set ?bs'. stuck ?m' x \<longrightarrow> L (x + SZ_BLOCK_METADATA) = Some 0"
  proof (intro ballI impI)
    fix x assume x: "x \<in> set ?bs'" and s: "stuck ?m' x"
    have "x \<noteq> b"
      using s ev by (auto simp: stuck_def IS_INUSE_upd)
    then have "stuck m x"
      using s stuck_cong [of ?m' x m] by simp
    with st sub x show "L (x + SZ_BLOCK_METADATA) = Some 0" by auto
  qed
  have hd': "hd ?bs' = brk"
    using hd by (cases pre) (simp_all add: bs)
  have "inv_bs brk avail ?m' L ?bs'"
    using ok' hd' bound sub live' st' by (auto simp: inv_bs_def)
  with c ev lz sub show ?thesis
    by (intro exI [of _ l] exI [of _ ?bs']) auto
qed

lemma seg_next_in:
  "seg m e bs \<Longrightarrow> p \<in> set bs \<Longrightarrow> NEXT_ADDRESS m p = e \<or> NEXT_ADDRESS m p \<in> set bs"
proof (induction bs)
  case Nil
  then show ?case by simp
next
  case (Cons b bs)
  show ?case
  proof (cases "p = b")
    case True
    with Cons.prems(1) show ?thesis
      by (cases bs) (auto simp: stuck_def)
  next
    case False
    with Cons show ?thesis by auto
  qed
qed

lemma inv_next_in:
  "inv_bs brk avail m L bs \<Longrightarrow> p \<in> set bs \<Longrightarrow> NEXT_ADDRESS m p = 0 \<or> NEXT_ADDRESS m p \<in> set bs"
  using seg_next_in [of m 0 bs p] by (simp add: inv_bs_def blocks_ok_def)

lemma inv_nonzero: "inv_bs brk avail m L bs \<Longrightarrow> p \<in> set bs \<Longrightarrow> p \<noteq> 0 \<and> even p"
  by (simp add: inv_bs_def blocks_ok_def)

text \<open>Whatever the search returns, it leaves a well-formed heap, and a block it stops
  at is a free block of the list that is large enough.\<close>

lemma find_fit_inv:
  assumes "find_fit aux m p = Some r"
    and "inv_bs brk avail m L bs" and "p = 0 \<or> p \<in> set bs"
  shows "\<exists>bs'. inv_bs brk avail (fst r) L bs'
           \<and> (snd r = 0 \<or> snd r \<in> set bs' \<and> \<not> IS_INUSE (fst r) (snd r)
                             \<and> aux \<le> BLOCK_SIZE (fst r) (snd r))"
  using assms
proof (induction aux m p r arbitrary: bs rule: find_fit.raw_induct [rotated 1, consumes 1])
  case (1 ff aux m p r)
  show ?case
  proof (cases "p = 0")
    case True
    with 1 show ?thesis by auto
  next
    case nz: False
    with 1 have p: "p \<in> set bs" by simp
    show ?thesis
    proof (cases "IS_INUSE m p")
      case True
      with nz 1(2) have rec: "ff aux m (NEXT_ADDRESS m p) = Some r" by simp
      have "NEXT_ADDRESS m p = 0 \<or> NEXT_ADDRESS m p \<in> set bs"
        using inv_next_in [OF 1(3) p] .
      from 1(1) [OF rec 1(3) this] show ?thesis .
    next
      case False
      from compact_inv [OF 1(3) p False] obtain l bs1 where
        c: "do_compact m p = Some (m(p := l))" and ev: "even l"
        and inv1: "inv_bs brk avail (m(p := l)) L bs1"
        and p1: "p \<in> set bs1" and l: "l = 0 \<or> l \<in> set bs1"
        by blast
      let ?m1 = "m(p := l)"
      have free1: "\<not> IS_INUSE ?m1 p" and nx1: "NEXT_ADDRESS ?m1 p = l"
        using ev by (simp_all add: IS_INUSE_upd NEXT_ADDRESS_upd_even)
      show ?thesis
      proof (cases "aux \<le> BLOCK_SIZE ?m1 p")
        case True
        with nz False c 1(2) have "r = (?m1, p)" by simp
        then have r: "fst r = ?m1" "snd r = p" by simp_all
        from inv1 p1 free1 True show ?thesis
          unfolding r by blast
      next
        case nofit: False
        with nz False c 1(2) nx1 have rec: "ff aux ?m1 l = Some r" by simp
        from 1(1) [OF rec inv1 l] show ?thesis .
      qed
    qed
  qed
qed

section \<open>Handing out a block\<close>

lemma inv_distinct: "inv_bs brk avail m L bs \<Longrightarrow> distinct bs"
  by (simp add: inv_bs_def blocks_ok_def gap_distinct)

lemma inv_free_next:
  assumes "inv_bs brk avail m L (pre @ b # ys)" and "\<not> IS_INUSE m b"
  shows "NEXT_ADDRESS m b = hd_or ys 0"
  using assms by (simp add: inv_bs_def blocks_ok_def seg_append free_not_stuck)

lemma inv_not_live:
  assumes "inv_bs brk avail m L bs" and "\<not> IS_INUSE m b"
  shows "L (b + SZ_BLOCK_METADATA) = None"
proof (cases "L (b + SZ_BLOCK_METADATA)")
  case None
  then show ?thesis .
next
  case (Some a)
  with assms(1) have "IS_INUSE m (b + SZ_BLOCK_METADATA - SZ_BLOCK_METADATA)"
    unfolding inv_bs_def live_ok_def by blast
  with assms(2) show ?thesis by simp
qed

text \<open>Marking a free block of the list in use, with its next reference kept or
  pointed at the block itself.\<close>

lemma mark_inv:
  assumes inv: "inv_bs brk avail m L bs" and tmp: "tmp \<in> set bs"
    and free: "\<not> IS_INUSE m tmp" and v: "odd v"
    and avail': "unat avail' \<le> unat avail"
    and nx: "v AND NOT 1 = NEXT_ADDRESS m tmp
               \<and> unat tmp + unat aux \<le> block_end brk m tmp
             \<or> v AND NOT 1 = tmp \<and> aux = 0"
  shows "inv_bs brk avail' (m(tmp := v)) (L(tmp + SZ_BLOCK_METADATA \<mapsto> aux)) bs"
proof -
  let ?m' = "m(tmp := v)"
  let ?L' = "L(tmp + SZ_BLOCK_METADATA \<mapsto> aux)"
  from inv have hd: "bs \<noteq> []" "hd bs = brk"
    and srt: "sorted_wrt (\<lambda>a b. unat a + 8 \<le> unat b) bs"
    and nz: "\<forall>b\<in>set bs. b \<noteq> 0 \<and> even b"
    and sg: "seg m 0 bs"
    and bound: "\<forall>x\<in>set bs. unat x + unat avail \<le> top_of brk"
    and live: "live_ok brk m bs L"
    and st: "\<forall>x\<in>set bs. stuck m x \<longrightarrow> L (x + SZ_BLOCK_METADATA) = Some 0"
    by (simp_all add: inv_bs_def blocks_ok_def)
  from tmp obtain pre ys where bs: "bs = pre @ tmp # ys"
    by (auto dest: split_list)
  have dist: "distinct bs" using inv by (rule inv_distinct)
  then have notin: "tmp \<notin> set pre" "tmp \<notin> set ys"
    by (simp_all add: bs)
  have used': "IS_INUSE ?m' tmp"
    using v by (simp add: IS_INUSE_upd)
  have nx': "NEXT_ADDRESS ?m' tmp = v AND NOT 1"
    by (simp add: NEXT_ADDRESS_upd)
  have c: "NEXT_ADDRESS m tmp = hd_or ys 0"
    using inv free unfolding bs by (rule inv_free_next)
  have tmp_nz: "tmp \<noteq> 0" using nz tmp by simp
  have link: "NEXT_ADDRESS ?m' tmp = hd_or ys 0 \<or> stuck ?m' tmp"
    using nx c used' nx' by (auto simp: stuck_def)
  have "seg m tmp pre" "seg m 0 ys"
    using sg by (simp_all add: bs seg_append)
  then have sg': "seg ?m' 0 bs"
    using link notin by (simp add: bs seg_append seg_upd)
  have bound': "\<forall>x\<in>set bs. unat x + unat avail' \<le> top_of brk"
    using bound avail' by fastforce
  have end': "unat tmp + unat aux \<le> block_end brk ?m' tmp"
    using nx nx' tmp_nz by (auto simp: block_end_def)
  have live': "live_ok brk ?m' bs ?L'"
    unfolding live_ok_def
  proof (intro allI impI)
    fix p a assume pa: "?L' p = Some a"
    show "p - SZ_BLOCK_METADATA \<in> set bs \<and> IS_INUSE ?m' (p - SZ_BLOCK_METADATA)
        \<and> unat (p - SZ_BLOCK_METADATA) + unat a \<le> block_end brk ?m' (p - SZ_BLOCK_METADATA)"
    proof (cases "p = tmp + SZ_BLOCK_METADATA")
      case True
      with pa have "a = aux" by simp
      with True tmp used' end' show ?thesis by simp
    next
      case False
      with pa have old: "L p = Some a" by simp
      with live have x: "p - SZ_BLOCK_METADATA \<in> set bs" "IS_INUSE m (p - SZ_BLOCK_METADATA)"
        and le: "unat (p - SZ_BLOCK_METADATA) + unat a \<le> block_end brk m (p - SZ_BLOCK_METADATA)"
        by (auto simp: live_ok_def)
      from x(2) free have "p - SZ_BLOCK_METADATA \<noteq> tmp" by auto
      then have "?m' (p - SZ_BLOCK_METADATA) = m (p - SZ_BLOCK_METADATA)" by simp
      with x le show ?thesis
        using block_end_cong [of ?m' "p - SZ_BLOCK_METADATA" m brk]
          IS_INUSE_cong [of ?m' "p - SZ_BLOCK_METADATA" m]
        by simp
    qed
  qed
  have st': "\<forall>x\<in>set bs. stuck ?m' x \<longrightarrow> ?L' (x + SZ_BLOCK_METADATA) = Some 0"
  proof (intro ballI impI)
    fix x assume x: "x \<in> set bs" and s: "stuck ?m' x"
    show "?L' (x + SZ_BLOCK_METADATA) = Some 0"
    proof (cases "x = tmp")
      case True
      have "hd_or ys 0 \<noteq> tmp"
        using notin(2) tmp_nz by (cases ys) auto
      with s True nx nx' c have "aux = 0"
        by (auto simp: stuck_def)
      with True show ?thesis by simp
    next
      case False
      then have "stuck m x"
        using s stuck_cong [of ?m' x m] by simp
      with st x have "L (x + SZ_BLOCK_METADATA) = Some 0" by simp
      with False show ?thesis by simp
    qed
  qed
  show ?thesis
    using hd srt nz sg' bound' live' st' by (simp add: inv_bs_def blocks_ok_def)
qed

lemma top_of_bound: "brk_ok brk \<Longrightarrow> top_of brk + 8 < 2 ^ 64"
  by (simp add: brk_ok_def top_of_def)

lemma unat_add_small:
  "unat (a :: addr) + unat b < 2 ^ 64 \<Longrightarrow> unat (a + b) = unat a + unat b"
  by (simp add: unat_word_ariths)

text \<open>Carving a new free block out of a free block of the list.\<close>

lemma split_inv:
  assumes inv: "inv_bs brk avail m L (pre @ tmp # ys)"
    and free: "\<not> IS_INUSE m tmp"
    and aux: "8 \<le> unat aux" "even aux"
    and avail': "unat avail' + unat aux \<le> unat avail"
    and room: "hd_or ys 0 \<noteq> 0 \<longrightarrow> unat tmp + unat aux + 8 \<le> unat (hd_or ys 0)"
    and brk: "brk_ok brk"
  shows "inv_bs brk avail'
           (m(tmp + aux := NEXT_ADDRESS m tmp, tmp := (tmp + aux) OR IN_USE_BIT))
           (L(tmp + SZ_BLOCK_METADATA \<mapsto> aux)) (pre @ tmp # (tmp + aux) # ys)"
proof -
  let ?bs = "pre @ tmp # ys"
  let ?t2 = "tmp + aux"
  let ?m' = "m(?t2 := NEXT_ADDRESS m tmp, tmp := ?t2 OR IN_USE_BIT)"
  let ?L' = "L(tmp + SZ_BLOCK_METADATA \<mapsto> aux)"
  let ?bs' = "pre @ tmp # ?t2 # ys"
  from inv have hd: "hd ?bs = brk"
    and srt: "sorted_wrt (\<lambda>a b. unat a + 8 \<le> unat b) ?bs"
    and nz: "\<forall>b\<in>set ?bs. b \<noteq> 0 \<and> even b"
    and sg: "seg m 0 ?bs"
    and bound: "\<forall>x\<in>set ?bs. unat x + unat avail \<le> top_of brk"
    and live: "live_ok brk m ?bs L"
    and st: "\<forall>x\<in>set ?bs. stuck m x \<longrightarrow> L (x + SZ_BLOCK_METADATA) = Some 0"
    by (simp_all add: inv_bs_def blocks_ok_def)
  have c: "NEXT_ADDRESS m tmp = hd_or ys 0"
    using inv free by (rule inv_free_next)
  have "unat tmp + unat avail \<le> top_of brk"
    using bound by simp
  with avail' top_of_bound [OF brk] have small: "unat tmp + unat aux < 2 ^ 64"
    and tb: "unat tmp + unat aux + unat avail' \<le> top_of brk"
    by linarith+
  have u2: "unat ?t2 = unat tmp + unat aux"
    using small by (rule unat_add_small)
  have gap1: "unat tmp + 8 \<le> unat ?t2"
    using u2 aux(1) by simp
  have below: "\<forall>x\<in>set pre. unat x + 8 \<le> unat ?t2"
    using srt gap1 by (fastforce simp: sorted_wrt_append)
  have above: "\<forall>y\<in>set ys. unat ?t2 + 8 \<le> unat y"
  proof (cases ys)
    case Nil
    then show ?thesis by simp
  next
    case (Cons c cs)
    with room u2 nz have r: "unat ?t2 + 8 \<le> unat c" by simp
    have "\<forall>y\<in>set cs. unat c + 8 \<le> unat y"
      using srt by (simp add: Cons sorted_wrt_append)
    with r show ?thesis by (fastforce simp: Cons)
  qed
  have t2_new: "?t2 \<notin> set ?bs"
    using below above gap1 by fastforce
  have t2_nz: "?t2 \<noteq> 0"
    using gap1 by (auto simp: unat_eq_0)
  have t2_ev: "even ?t2"
    using nz aux(2) by simp
  have tmp_ne: "tmp \<noteq> ?t2"
    using gap1 by auto
  have dist: "distinct ?bs"
    using inv by (rule inv_distinct)
  then have notin: "tmp \<notin> set pre" "tmp \<notin> set ys"
    by simp_all
  have srt': "sorted_wrt (\<lambda>a b. unat a + 8 \<le> unat b) ?bs'"
    using srt below above gap1 by (auto simp: sorted_wrt_append)
  have nz': "\<forall>b\<in>set ?bs'. b \<noteq> 0 \<and> even b"
    using nz t2_nz t2_ev by auto
  have nx_tmp: "NEXT_ADDRESS ?m' tmp = ?t2"
    using t2_ev by (simp add: NEXT_ADDRESS_upd_set)
  have used': "IS_INUSE ?m' tmp"
    by (simp add: IS_INUSE_upd_set)
  have "NEXT_ADDRESS ?m' ?t2 = NEXT_ADDRESS m tmp" and free_t2: "\<not> IS_INUSE ?m' ?t2"
    using tmp_ne
    by (simp_all add: NEXT_ADDRESS_upd_other IS_INUSE_upd_other NEXT_ADDRESS_upd_even
                      IS_INUSE_upd)
  then have nx_t2: "NEXT_ADDRESS ?m' ?t2 = hd_or ys 0"
    using c by simp
  have same: "?m' x = m x" if "x \<in> set ?bs" "x \<noteq> tmp" for x
    using that t2_new by auto
  have "seg m tmp pre" "seg m 0 ys"
    using sg by (simp_all add: seg_append)
  moreover have "seg ?m' tmp pre = seg m tmp pre" "seg ?m' 0 ys = seg m 0 ys"
    using same notin by (auto intro!: seg_cong)
  ultimately have sg': "seg ?m' 0 ?bs'"
    using nx_tmp nx_t2 by (simp add: seg_append)
  have bound': "\<forall>x\<in>set ?bs'. unat x + unat avail' \<le> top_of brk"
  proof
    fix x assume "x \<in> set ?bs'"
    then consider "x = ?t2" | "x \<in> set ?bs" by auto
    then show "unat x + unat avail' \<le> top_of brk"
    proof cases
      case 1
      with tb u2 show ?thesis by simp
    next
      case 2
      with bound have "unat x + unat avail \<le> top_of brk" by blast
      with avail' show ?thesis by linarith
    qed
  qed
  have live': "live_ok brk ?m' ?bs' ?L'"
    unfolding live_ok_def
  proof (intro allI impI)
    fix p a assume pa: "?L' p = Some a"
    show "p - SZ_BLOCK_METADATA \<in> set ?bs' \<and> IS_INUSE ?m' (p - SZ_BLOCK_METADATA)
        \<and> unat (p - SZ_BLOCK_METADATA) + unat a \<le> block_end brk ?m' (p - SZ_BLOCK_METADATA)"
    proof (cases "p = tmp + SZ_BLOCK_METADATA")
      case True
      with pa have "a = aux" by simp
      with True used' nx_tmp t2_nz u2 show ?thesis
        by (simp add: block_end_def)
    next
      case False
      with pa have old: "L p = Some a" by simp
      with live have x: "p - SZ_BLOCK_METADATA \<in> set ?bs" "IS_INUSE m (p - SZ_BLOCK_METADATA)"
        and le: "unat (p - SZ_BLOCK_METADATA) + unat a \<le> block_end brk m (p - SZ_BLOCK_METADATA)"
        by (auto simp: live_ok_def)
      from x(2) free have "p - SZ_BLOCK_METADATA \<noteq> tmp" by auto
      with x(1) have "?m' (p - SZ_BLOCK_METADATA) = m (p - SZ_BLOCK_METADATA)"
        by (rule same)
      with x le show ?thesis
        using block_end_cong [of ?m' "p - SZ_BLOCK_METADATA" m brk]
          IS_INUSE_cong [of ?m' "p - SZ_BLOCK_METADATA" m]
        by auto
    qed
  qed
  have st': "\<forall>x\<in>set ?bs'. stuck ?m' x \<longrightarrow> ?L' (x + SZ_BLOCK_METADATA) = Some 0"
  proof (intro ballI impI)
    fix x assume x: "x \<in> set ?bs'" and s: "stuck ?m' x"
    from s nx_tmp tmp_ne have "x \<noteq> tmp" by (auto simp: stuck_def)
    moreover from s free_t2 have "x \<noteq> ?t2" by (auto simp: stuck_def)
    ultimately have xin: "x \<in> set ?bs" and "?m' x = m x"
      using x same by auto
    then have "stuck m x"
      using s stuck_cong [of ?m' x m] by simp
    with st xin have "L (x + SZ_BLOCK_METADATA) = Some 0" by blast
    with \<open>x \<noteq> tmp\<close> show "?L' (x + SZ_BLOCK_METADATA) = Some 0" by simp
  qed
  have hd': "hd ?bs' = brk"
    using hd by (cases pre) simp_all
  have ne': "?bs' \<noteq> []" by simp
  show ?thesis
    unfolding inv_bs_def blocks_ok_def
    using ne' hd' srt' nz' sg' bound' live' st' by blast
qed

lemma ALIGN_zero_or_8: "ALIGN x = 0 \<or> 8 \<le> unat (ALIGN x)"
proof -
  have "8 dvd unat (ALIGN x)" by (rule ALIGN_dvd)
  then have "unat (ALIGN x) = 0 \<or> 8 \<le> unat (ALIGN x)"
    by (auto elim: dvdE)
  then show ?thesis by (simp add: unat_eq_0)
qed

lemma inv_avail: "inv_bs brk avail m L bs \<Longrightarrow> unat avail \<le> 4096"
proof -
  assume inv: "inv_bs brk avail m L bs"
  then have "brk \<in> set bs" by (auto simp: inv_bs_def)
  with inv have "unat brk + unat avail \<le> top_of brk" by (simp add: inv_bs_def)
  then show ?thesis by (simp add: top_of_def)
qed

lemma gap_next:
  "sorted_wrt (\<lambda>a b. unat a + 8 \<le> unat b) (pre @ b # c # cs) \<Longrightarrow> unat b + 8 \<le> unat (c :: addr)"
  by (simp add: sorted_wrt_append)

lemma place_inv:
  assumes inv: "inv_bs brk avail m L bs" and tmp: "tmp \<in> set bs"
    and free: "\<not> IS_INUSE m tmp" and fit: "ALIGN x \<le> BLOCK_SIZE m tmp"
    and le: "ALIGN x \<le> avail" and brk: "brk_ok brk"
  shows "\<exists>bs'. inv_bs brk (avail - ALIGN x) (place (ALIGN x) m tmp)
                  (L(tmp + SZ_BLOCK_METADATA \<mapsto> ALIGN x)) bs'"
proof -
  let ?aux = "ALIGN x"
  from tmp obtain pre ys where bs: "bs = pre @ tmp # ys"
    by (auto dest: split_list)
  let ?c = "hd_or ys 0"
  have c: "NEXT_ADDRESS m tmp = ?c"
    using inv free unfolding bs by (rule inv_free_next)
  have ua: "unat ?aux \<le> unat avail"
    using le by (simp add: word_le_nat_alt)
  have av: "unat avail \<le> 4096"
    using inv by (rule inv_avail)
  have sub: "unat (avail - ?aux) = unat avail - unat ?aux"
    using le by (simp add: unat_sub)
  have tb: "unat tmp + unat avail \<le> top_of brk"
    using inv tmp by (simp add: inv_bs_def)
  have "unat (tmp + 8) = unat tmp + unat (8 :: addr)"
    using tb top_of_bound [OF brk] by (intro unat_add_small) simp
  then have t8: "unat (tmp + 8) = unat tmp + 8"
    by simp
  have tmp_ev: "even tmp" and tmp_nz: "tmp \<noteq> 0"
    using inv_nonzero [OF inv tmp] by simp_all
  have srt: "sorted_wrt (\<lambda>a b. unat a + 8 \<le> unat b) (pre @ tmp # ys)"
    using inv by (simp add: inv_bs_def blocks_ok_def bs)
  have size: "unat (BLOCK_SIZE m tmp) = unat ?c - (unat tmp + 8)" if "?c \<noteq> 0"
  proof -
    from that obtain cs where "ys = ?c # cs" by (cases ys) auto
    with srt have "sorted_wrt (\<lambda>a b. unat a + 8 \<le> unat b) (pre @ tmp # ?c # cs)"
      by simp
    then have "unat tmp + 8 \<le> unat ?c"
      by (rule gap_next)
    then have "tmp + 8 \<le> ?c"
      by (simp add: word_le_nat_alt t8)
    then show ?thesis
      by (simp add: BLOCK_SIZE_def c SZ_BLOCK_METADATA_def unat_sub t8)
  qed
  have a16: "unat (?aux + 8 + 8) = unat ?aux + 16"
  proof -
    have "unat (?aux + 16) = unat ?aux + unat (16 :: addr)"
      using ua av by (intro unat_add_small) simp
    then show ?thesis by (simp add: add.assoc)
  qed
  show ?thesis
  proof (cases "?aux + SZ_BLOCK_METADATA + MY_ALIGNMENT_SZ \<le> BLOCK_SIZE m tmp")
    case split: True
    show ?thesis
    proof (cases "?aux = 0")
      case True
      have eq: "place ?aux m tmp = m(tmp := tmp OR 1)"
        using split by (simp add: place_eq True IN_USE_BIT_def)
      have "inv_bs brk (avail - ?aux) (m(tmp := tmp OR 1))
              (L(tmp + SZ_BLOCK_METADATA \<mapsto> ?aux)) bs"
        using inv tmp free
      proof (rule mark_inv)
        show "odd (tmp OR 1)" by (rule set_bit_odd)
        show "unat (avail - ?aux) \<le> unat avail" by (simp add: sub)
        show "(tmp OR 1) AND NOT 1 = NEXT_ADDRESS m tmp
                \<and> unat tmp + unat ?aux \<le> block_end brk m tmp
              \<or> (tmp OR 1) AND NOT 1 = tmp \<and> ?aux = 0"
          using True set_clear_bit [OF tmp_ev] by simp
      qed
      then show ?thesis unfolding eq by blast
    next
      case False
      with ALIGN_zero_or_8 [of x] have a8: "8 \<le> unat ?aux" by simp
      have eq: "place ?aux m tmp
                  = m(tmp + ?aux := NEXT_ADDRESS m tmp, tmp := (tmp + ?aux) OR IN_USE_BIT)"
        using split by (simp add: place_eq)
      have room: "?c \<noteq> 0 \<longrightarrow> unat tmp + unat ?aux + 8 \<le> unat ?c"
      proof
        assume nz: "?c \<noteq> 0"
        from split have "unat (?aux + 8 + 8) \<le> unat (BLOCK_SIZE m tmp)"
          by (simp add: word_le_nat_alt SZ_BLOCK_METADATA_def MY_ALIGNMENT_SZ_def)
        then show "unat tmp + unat ?aux + 8 \<le> unat ?c"
          unfolding a16 size [OF nz] by linarith
      qed
      have "inv_bs brk (avail - ?aux)
              (m(tmp + ?aux := NEXT_ADDRESS m tmp, tmp := (tmp + ?aux) OR IN_USE_BIT))
              (L(tmp + SZ_BLOCK_METADATA \<mapsto> ?aux)) (pre @ tmp # (tmp + ?aux) # ys)"
        using inv [unfolded bs] free a8 _ _ room brk
      proof (rule split_inv)
        show "even ?aux" by simp
        show "unat (avail - ?aux) + unat ?aux \<le> unat avail"
          using ua by (simp add: sub)
      qed
      then show ?thesis unfolding eq by blast
    qed
  next
    case nosplit: False
    have eq: "place ?aux m tmp = m(tmp := m tmp OR 1)"
      using nosplit by (simp add: place_eq IN_USE_BIT_def)
    have fits: "unat tmp + unat ?aux \<le> block_end brk m tmp"
    proof (cases "?c = 0")
      case True
      with tb ua show ?thesis by (simp add: block_end_def c)
    next
      case False
      from fit have "unat ?aux \<le> unat (BLOCK_SIZE m tmp)"
        by (simp add: word_le_nat_alt)
      moreover have "unat tmp + 8 \<le> unat ?c"
      proof -
        from False obtain cs where "ys = ?c # cs" by (cases ys) auto
        with srt have "sorted_wrt (\<lambda>a b. unat a + 8 \<le> unat b) (pre @ tmp # ?c # cs)"
          by simp
        then show ?thesis
          by (simp add: gap_next)
      qed
      ultimately have "unat tmp + unat ?aux \<le> unat ?c"
        unfolding size [OF False] by linarith
      then show ?thesis
        using False by (simp add: block_end_def c)
    qed
    have "inv_bs brk (avail - ?aux) (m(tmp := m tmp OR 1))
            (L(tmp + SZ_BLOCK_METADATA \<mapsto> ?aux)) bs"
      using inv tmp free
    proof (rule mark_inv)
      show "odd (m tmp OR 1)" by (rule set_bit_odd)
      show "unat (avail - ?aux) \<le> unat avail" by (simp add: sub)
      show "(m tmp OR 1) AND NOT 1 = NEXT_ADDRESS m tmp
              \<and> unat tmp + unat ?aux \<le> block_end brk m tmp
            \<or> (m tmp OR 1) AND NOT 1 = tmp \<and> ?aux = 0"
        using fits set_bit_next [of "m tmp"] by (simp add: NEXT_ADDRESS_def IN_USE_BIT_def)
    qed
    then show ?thesis unfolding eq by blast
  qed
qed

section \<open>The entry points keep the heap well formed\<close>

lemma init_inv:
  assumes "brk_ok brk"
  shows "inv_bs brk 4096 (m(brk := 0)) Map.empty [brk]"
proof -
  have "NEXT_ADDRESS (m(brk := 0)) brk = 0"
    by (simp add: NEXT_ADDRESS_upd_even)
  moreover have "\<not> stuck (m(brk := 0)) brk"
    by (simp add: stuck_def IS_INUSE_upd)
  ultimately show ?thesis
    using assms by (simp add: inv_bs_def blocks_ok_def brk_ok_def live_ok_def top_of_def)
qed

lemma lazy_init_inv:
  assumes "brk_ok brk" and "state_inv brk h L"
  shows "heap_inv brk (lazy_init brk h) L"
proof (cases "size_heap h = 0")
  case True
  with assms(2) have "L = Map.empty"
    by (auto simp: state_inv_def heap_inv_def)
  with True init_inv [OF assms(1), of "mem h"] show ?thesis
    by (auto simp: lazy_init_def init_heap_def heap_inv_def)
next
  case False
  with assms(2) show ?thesis
    by (simp add: state_inv_def lazy_init_def)
qed

lemma mymalloc_inv:
  assumes brk: "brk_ok brk" and inv: "state_inv brk h L"
    and call: "mymalloc brk h n = Some (Returned p, h')"
  shows "heap_inv brk h' (L(p \<mapsto> ALIGN (n + SZ_BLOCK_METADATA)))"
proof -
  let ?aux = "ALIGN (n + SZ_BLOCK_METADATA)"
  let ?h = "lazy_init brk h"
  from call obtain m tmp where le: "?aux \<le> available_size ?h"
    and f: "find_fit ?aux (mem ?h) (start_of_heap ?h) = Some (m, tmp)"
    and tmp: "tmp \<noteq> 0" and p: "p = tmp + SZ_BLOCK_METADATA"
    and h': "h' = ?h\<lparr>available_size := available_size ?h - ?aux, mem := place ?aux m tmp\<rparr>"
    unfolding mymalloc_Returned by blast
  from lazy_init_inv [OF brk inv] obtain bs where sz: "size_heap ?h = 4096"
    and st: "start_of_heap ?h = brk"
    and ibs: "inv_bs brk (available_size ?h) (mem ?h) L bs"
    by (auto simp: heap_inv_def)
  from ibs have "brk \<in> set bs"
    by (auto simp: inv_bs_def)
  with find_fit_inv [OF f [unfolded st] ibs] tmp
  obtain bs1 where i1: "inv_bs brk (available_size ?h) m L bs1"
    and t1: "tmp \<in> set bs1" "\<not> IS_INUSE m tmp" "?aux \<le> BLOCK_SIZE m tmp"
    by auto
  from place_inv [OF i1 t1 le brk] obtain bs2 where
    "inv_bs brk (available_size ?h - ?aux) (place ?aux m tmp)
       (L(tmp + SZ_BLOCK_METADATA \<mapsto> ?aux)) bs2"
    by blast
  with sz st show ?thesis
    unfolding heap_inv_def h' p by auto
qed

lemma mymalloc_refused_inv:
  assumes "brk_ok brk" and "state_inv brk h L"
    and "mymalloc brk h n = Some (Not_enough_space, h')"
  shows "heap_inv brk h' L"
proof -
  from assms(3) have "h' = lazy_init brk h"
    by (auto simp: mymalloc_def Let_def split: if_splits option.splits)
  with lazy_init_inv [OF assms(1,2)] show ?thesis by simp
qed

lemma free_run_self_loop:
  "free_run m b xs l \<Longrightarrow> NEXT_ADDRESS m b = b \<Longrightarrow> l = b"
  by (induction xs) auto

lemma compact_walk_self_loop:
  assumes "b \<noteq> 0" and "\<not> IS_INUSE m b" and "NEXT_ADDRESS m b = b"
  shows "compact_walk m b = None"
proof (cases "compact_walk m b")
  case None
  then show ?thesis .
next
  case (Some l)
  then obtain xs where "free_run m b xs l" and stop: "l = 0 \<or> IS_INUSE m l"
    using compact_walk_free_run by blast
  with assms(3) have "l = b" by (simp add: free_run_self_loop)
  with stop assms show ?thesis by simp
qed

lemma stuck_UNSET: "stuck (UNSET_INUSE m b) x = (x \<noteq> b \<and> stuck m x)"
  by (auto simp: stuck_def)

lemma seg_UNSET: "seg m e bs \<Longrightarrow> \<not> stuck m b \<Longrightarrow> seg (UNSET_INUSE m b) e bs"
  by (induction bs) (auto simp: stuck_UNSET)

lemma block_end_UNSET [simp]: "block_end brk (UNSET_INUSE m b) x = block_end brk m x"
  by (simp add: block_end_def)

lemma live_pointer_nonzero:
  assumes brk: "brk_ok brk" and inv: "inv_bs brk avail m L bs" and live: "L p = Some a"
  shows "p \<noteq> 0" and "unat p = unat (p - SZ_BLOCK_METADATA) + 8"
proof -
  let ?b = "p - SZ_BLOCK_METADATA"
  from inv live have "?b \<in> set bs"
    by (auto simp: inv_bs_def live_ok_def)
  with inv have "unat ?b + unat avail \<le> top_of brk"
    by (simp add: inv_bs_def)
  with top_of_bound [OF brk] have "unat ?b + unat (8 :: addr) < 2 ^ 64"
    by simp
  then have "unat (?b + 8) = unat ?b + unat (8 :: addr)"
    by (rule unat_add_small)
  then show u: "unat p = unat ?b + 8"
    by (simp add: SZ_BLOCK_METADATA_def)
  then show "p \<noteq> 0" by auto
qed

lemma myfree_inv:
  assumes brk: "brk_ok brk" and inv: "heap_inv brk h L" and live: "L p = Some a"
    and call: "myfree h p = Some h'"
  shows "heap_inv brk h' (L(p := None))"
proof -
  let ?tmp = "p - SZ_BLOCK_METADATA"
  let ?m = "mem h"
  let ?mu = "UNSET_INUSE ?m ?tmp"
  let ?L' = "L(p := None)"
  from inv obtain bs where sz: "size_heap h = 4096" and st: "start_of_heap h = brk"
    and ibs: "inv_bs brk (available_size h) ?m L bs"
    by (auto simp: heap_inv_def)
  have pnz: "p \<noteq> 0"
    using live_pointer_nonzero(1) [OF brk ibs live] .
  from ibs live have tmp: "?tmp \<in> set bs" and used: "IS_INUSE ?m ?tmp"
    by (auto simp: inv_bs_def live_ok_def)
  have tnz: "?tmp \<noteq> 0"
    using inv_nonzero [OF ibs tmp] by simp
  from call pnz obtain m1 where c: "do_compact ?mu ?tmp = Some m1" and h': "h' = h\<lparr>mem := m1\<rparr>"
    by (auto simp: myfree_def Let_def)
  have ns: "\<not> stuck ?m ?tmp"
  proof
    assume "stuck ?m ?tmp"
    then have "NEXT_ADDRESS ?mu ?tmp = ?tmp" by (simp add: stuck_def)
    then have "compact_walk ?mu ?tmp = None"
      using tnz by (intro compact_walk_self_loop) simp_all
    with c show False by (simp add: do_compact_def)
  qed
  from ibs have hd: "bs \<noteq> []" "hd bs = brk"
    and srt: "sorted_wrt (\<lambda>a b. unat a + 8 \<le> unat b) bs"
    and nz: "\<forall>b\<in>set bs. b \<noteq> 0 \<and> even b"
    and sg: "seg ?m 0 bs"
    and bound: "\<forall>x\<in>set bs. unat x + unat (available_size h) \<le> top_of brk"
    and lv: "live_ok brk ?m bs L"
    and stk: "\<forall>x\<in>set bs. stuck ?m x \<longrightarrow> L (x + SZ_BLOCK_METADATA) = Some 0"
    by (simp_all add: inv_bs_def blocks_ok_def)
  have sg0: "seg ?mu 0 bs"
    using sg ns by (rule seg_UNSET)
  have lv0: "live_ok brk ?mu bs ?L'"
    unfolding live_ok_def
  proof (intro allI impI)
    fix q a' assume "?L' q = Some a'"
    then have q: "q \<noteq> p" "L q = Some a'"
      by (auto split: if_splits)
    then have "q - SZ_BLOCK_METADATA \<noteq> ?tmp" by simp
    with lv q(2) show "q - SZ_BLOCK_METADATA \<in> set bs \<and> IS_INUSE ?mu (q - SZ_BLOCK_METADATA)
        \<and> unat (q - SZ_BLOCK_METADATA) + unat a' \<le> block_end brk ?mu (q - SZ_BLOCK_METADATA)"
      by (simp add: live_ok_def)
  qed
  have stk0: "\<forall>x\<in>set bs. stuck ?mu x \<longrightarrow> ?L' (x + SZ_BLOCK_METADATA) = Some 0"
  proof (intro ballI impI)
    fix x assume x: "x \<in> set bs" and s: "stuck ?mu x"
    then have "x \<noteq> ?tmp" "stuck ?m x" by (simp_all add: stuck_UNSET)
    with stk x have "L (x + SZ_BLOCK_METADATA) = Some 0" by simp
    moreover from \<open>x \<noteq> ?tmp\<close> have "x + SZ_BLOCK_METADATA \<noteq> p" by auto
    ultimately show "?L' (x + SZ_BLOCK_METADATA) = Some 0" by simp
  qed
  have i0: "inv_bs brk (available_size h) ?mu ?L' bs"
    unfolding inv_bs_def blocks_ok_def
    using hd srt nz sg0 bound lv0 stk0 by blast
  have "\<not> IS_INUSE ?mu ?tmp" by simp
  from compact_inv [OF i0 tmp this] c obtain bs' where
    "inv_bs brk (available_size h) m1 ?L' bs'"
    by auto
  with sz st show ?thesis
    by (auto simp: heap_inv_def h')
qed

text \<open>If the loop of \<^verbatim>\<open>reset_heap\<close> returns, it did not start at a block that refers to
  itself, every block from its starting point on is free and the list is as it was.\<close>

lemma reset_walk_frees:
  assumes "reset_walk m p = Some m1"
  shows "\<not> (p \<noteq> 0 \<and> NEXT_ADDRESS m p = p)
         \<and> (\<forall>pre ys. seg m 0 (pre @ ys) \<and> (\<forall>x\<in>set ys. x \<noteq> 0) \<and> p = hd_or ys 0 \<longrightarrow>
               seg m1 0 (pre @ ys) \<and> (\<forall>x\<in>set ys. \<not> IS_INUSE m1 x)
               \<and> (\<forall>x. IS_INUSE m1 x \<longrightarrow> IS_INUSE m x))"
  using assms
proof (induction m p m1 rule: reset_walk.raw_induct [rotated 1, consumes 1])
  case (1 rw m p m1)
  let ?mu = "UNSET_INUSE m p"
  have loop: "\<not> (p \<noteq> 0 \<and> NEXT_ADDRESS m p = p)"
  proof
    assume a: "p \<noteq> 0 \<and> NEXT_ADDRESS m p = p"
    with 1(2) have "rw ?mu p = Some m1" by simp
    from 1(1) [OF this] a show False by simp
  qed
  have main: "seg m1 0 (pre @ ys) \<and> (\<forall>x\<in>set ys. \<not> IS_INUSE m1 x)
               \<and> (\<forall>x. IS_INUSE m1 x \<longrightarrow> IS_INUSE m x)"
    if sg: "seg m 0 (pre @ ys)" and nz: "\<forall>x\<in>set ys. x \<noteq> 0" and p: "p = hd_or ys 0"
    for pre ys
  proof (cases ys)
    case Nil
    with 1(2) p have "m1 = m" by simp
    with sg Nil show ?thesis by simp
  next
    case (Cons b zs)
    with nz p have pb: "p = b" "p \<noteq> 0" by simp_all
    from 1(2) pb have rec: "rw ?mu (NEXT_ADDRESS m p) = Some m1" by simp
    from loop pb have ns: "\<not> stuck m p" by (simp add: stuck_def)
    from sg have "seg m 0 (b # zs)" by (simp add: Cons seg_append)
    with ns pb have nx: "NEXT_ADDRESS m p = hd_or zs 0" by simp
    have sg': "seg ?mu 0 ((pre @ [b]) @ zs)"
      using seg_UNSET [OF sg ns] by (simp add: Cons)
    have nz': "\<forall>x\<in>set zs. x \<noteq> 0" using nz Cons by simp
    from 1(1) [OF rec] sg' nz' nx
    have r: "seg m1 0 ((pre @ [b]) @ zs)" "\<forall>x\<in>set zs. \<not> IS_INUSE m1 x"
      "\<forall>x. IS_INUSE m1 x \<longrightarrow> IS_INUSE ?mu x"
      by blast+
    from r(3) pb have "\<not> IS_INUSE m1 b" by auto
    moreover from r(3) have "\<forall>x. IS_INUSE m1 x \<longrightarrow> IS_INUSE m x" by auto
    ultimately show ?thesis
      using r(1,2) by (simp add: Cons)
  qed
  from loop main show ?case by blast
qed

lemma reset_heap_inv:
  assumes brk: "brk_ok brk" and inv: "heap_inv brk h L" and call: "reset_heap h = Some h'"
  shows "heap_inv brk h' Map.empty"
proof -
  from inv obtain bs where sz: "size_heap h = 4096" and st: "start_of_heap h = brk"
    and ibs: "inv_bs brk (available_size h) (mem h) L bs"
    by (auto simp: heap_inv_def)
  from call st obtain m1 m2 where w: "reset_walk (mem h) brk = Some m1"
    and c: "do_compact m1 brk = Some m2" and h': "h' = h\<lparr>mem := m2\<rparr>"
    by (auto simp: reset_heap_def split: option.splits)
  from ibs have hd: "bs \<noteq> []" "hd bs = brk"
    and srt: "sorted_wrt (\<lambda>a b. unat a + 8 \<le> unat b) bs"
    and nz: "\<forall>b\<in>set bs. b \<noteq> 0 \<and> even b"
    and sg: "seg (mem h) 0 bs"
    and bound: "\<forall>x\<in>set bs. unat x + unat (available_size h) \<le> top_of brk"
    by (simp_all add: inv_bs_def blocks_ok_def)
  from hd have "brk = hd_or bs 0" by (cases bs) simp_all
  with reset_walk_frees [OF w] sg nz
  have sg1: "seg m1 0 ([] @ bs)" and free1: "\<forall>x\<in>set bs. \<not> IS_INUSE m1 x"
    by (metis append_Nil)+
  have "inv_bs brk (available_size h) m1 Map.empty bs"
    unfolding inv_bs_def blocks_ok_def live_ok_def
    using hd srt nz sg1 bound free1 by (auto simp: stuck_def)
  moreover from hd have "brk \<in> set bs" by auto
  ultimately obtain bs' where "inv_bs brk (available_size h) m2 Map.empty bs'"
    using compact_inv [of brk "available_size h" m1 Map.empty bs brk] free1 c by auto
  with sz st show ?thesis
    by (auto simp: heap_inv_def h')
qed

section \<open>Reachable states are well formed\<close>

lemma reach_inv:
  assumes "brk_ok brk" and "reach brk h L"
  shows "state_inv brk h L"
  using assms(2)
proof (induction rule: reach.induct)
  case (start m)
  then show ?case by (simp add: state_inv_def heap0_def)
next
  case (allocated h L n p h')
  from mymalloc_inv [OF assms(1) allocated.IH allocated.hyps(2)] show ?case
    unfolding state_inv_def by (rule disjI2)
next
  case (refused h L n h')
  from mymalloc_refused_inv [OF assms(1) refused.IH refused.hyps(2)] show ?case
    unfolding state_inv_def by (rule disjI2)
next
  case (released h L p a h')
  then have "heap_inv brk h L" by (auto simp: state_inv_def)
  from myfree_inv [OF assms(1) this released.hyps(2,3)] show ?case
    unfolding state_inv_def by (rule disjI2)
next
  case (released_null h L h')
  then show ?case by (simp add: myfree_def)
next
  case (reset h L h')
  show ?case
  proof (cases "heap_inv brk h L")
    case True
    from reset_heap_inv [OF assms(1) True reset.hyps(2)] show ?thesis
      unfolding state_inv_def by (rule disjI2)
  next
    case False
    with reset.IH have "start_of_heap h = 0" by (simp add: state_inv_def)
    with reset.hyps(2) show ?thesis
      by (auto simp: reset_heap_def do_compact_def split: option.splits)
  qed
qed

lemma next_le:
  assumes ok: "blocks_ok m bs" and b1: "b1 \<in> set bs" and b2: "b2 \<in> set bs"
    and lt: "unat b1 < unat b2"
  shows "stuck m b1 \<or> NEXT_ADDRESS m b1 \<noteq> 0 \<and> unat (NEXT_ADDRESS m b1) \<le> unat b2"
proof -
  from b1 obtain pre ys where bs: "bs = pre @ b1 # ys"
    by (auto dest: split_list)
  from ok have srt: "sorted_wrt (\<lambda>a b. unat a + 8 \<le> unat b) (pre @ b1 # ys)"
    and nz: "\<forall>b\<in>set bs. b \<noteq> 0" and sg: "seg m 0 (pre @ b1 # ys)"
    by (simp_all add: blocks_ok_def bs)
  from srt lt b2 have "b2 \<in> set ys"
    by (fastforce simp: bs sorted_wrt_append)
  then obtain c cs where ys: "ys = c # cs" by (cases ys) auto
  from srt \<open>b2 \<in> set ys\<close> have "unat c \<le> unat b2"
    by (fastforce simp: ys sorted_wrt_append)
  moreover from nz have "c \<noteq> 0" by (simp add: bs ys)
  moreover from sg have "NEXT_ADDRESS m b1 = c \<or> stuck m b1"
    by (simp add: seg_append ys)
  ultimately show ?thesis by auto
qed

lemma live_ordered_disjoint:
  assumes brk: "brk_ok brk" and inv: "inv_bs brk avail m L bs"
    and l1: "L p1 = Some a1" and l2: "L p2 = Some a2"
    and lt: "unat (p1 - SZ_BLOCK_METADATA) < unat (p2 - SZ_BLOCK_METADATA)"
  shows "live_range p1 a1 \<inter> live_range p2 a2 = {}"
proof -
  let ?b1 = "p1 - SZ_BLOCK_METADATA" and ?b2 = "p2 - SZ_BLOCK_METADATA"
  from inv l1 l2 have b: "?b1 \<in> set bs" "?b2 \<in> set bs"
    and e1: "unat ?b1 + unat a1 \<le> block_end brk m ?b1"
    by (auto simp: inv_bs_def live_ok_def)
  have u1: "unat p1 = unat ?b1 + 8" and u2: "unat p2 = unat ?b2 + 8"
    using live_pointer_nonzero(2) [OF brk inv] l1 l2 by blast+
  from inv have "blocks_ok m bs" by (simp add: inv_bs_def)
  from next_le [OF this b lt] have "unat ?b1 + unat a1 \<le> unat p1 \<or> unat ?b1 + unat a1 \<le> unat ?b2"
  proof
    assume "stuck m ?b1"
    moreover have "?b1 \<noteq> 0" using inv_nonzero [OF inv b(1)] by blast
    ultimately have "block_end brk m ?b1 = unat ?b1"
      by (simp add: stuck_def block_end_def)
    with e1 u1 show ?thesis by simp
  next
    assume "NEXT_ADDRESS m ?b1 \<noteq> 0 \<and> unat (NEXT_ADDRESS m ?b1) \<le> unat ?b2"
    with e1 show ?thesis by (simp add: block_end_def)
  qed
  with u1 u2 show ?thesis
    by (auto simp: live_range_def)
qed

text \<open>
  C1: in every state reachable from program start, with \<^verbatim>\<open>sbrk\<close> returning a usable
  address, the byte ranges of two distinct live allocations are disjoint.
\<close>

theorem live_allocations_disjoint:
  assumes "brk_ok brk" and "reach brk h L"
    and "L p1 = Some a1" and "L p2 = Some a2" and "p1 \<noteq> p2"
  shows "live_range p1 a1 \<inter> live_range p2 a2 = {}"
proof -
  from reach_inv [OF assms(1,2)] assms(3) obtain bs where
    inv: "inv_bs brk (available_size h) (mem h) L bs"
    by (auto simp: state_inv_def heap_inv_def)
  from assms(5) have "p1 - SZ_BLOCK_METADATA \<noteq> p2 - SZ_BLOCK_METADATA" by simp
  then have "unat (p1 - SZ_BLOCK_METADATA) \<noteq> unat (p2 - SZ_BLOCK_METADATA)"
    by (simp add: word_unat_eq_iff)
  then consider "unat (p1 - SZ_BLOCK_METADATA) < unat (p2 - SZ_BLOCK_METADATA)"
    | "unat (p2 - SZ_BLOCK_METADATA) < unat (p1 - SZ_BLOCK_METADATA)"
    by linarith
  then show ?thesis
  proof cases
    case 1
    from live_ordered_disjoint [OF assms(1) inv assms(3,4) 1] show ?thesis .
  next
    case 2
    from live_ordered_disjoint [OF assms(1) inv assms(4,3) 2] show ?thesis by blast
  qed
qed

section \<open>A concrete run\<close>

lemma first_alloc:
  "mymalloc 4096 (heap0 zero_store) 10 = Some (Returned 4104, one_block_heap)"
proof -
  let ?m = "zero_store(4096 := 0)"
  have free: "\<not> IS_INUSE ?m 4096"
    by (simp add: IS_INUSE_odd)
  have "compact_walk ?m 4096 = Some 0"
    using free by (simp add: compact_walk_step compact_walk_stop NEXT_ADDRESS_def)
  then have c: "do_compact ?m 4096 = Some ?m"
    by (simp add: do_compact_def)
  have sz: "BLOCK_SIZE ?m 4096 = 18446744073709547512"
    by (simp add: BLOCK_SIZE_def NEXT_ADDRESS_def SZ_BLOCK_METADATA_def)
  have f: "find_fit 24 ?m 4096 = Some (?m, 4096)"
    using find_fit_free [OF _ free c, of 24] by (simp add: sz)
  have p: "place 24 ?m 4096 = (\<lambda>_. 0)(4096 := 4121)"
  proof -
    have "place 24 ?m 4096 = ?m(4120 := 0, 4096 := 4121)"
      by (simp add: place_eq sz SZ_BLOCK_METADATA_def MY_ALIGNMENT_SZ_def
                    NEXT_ADDRESS_def IN_USE_BIT_def)
    also have "\<dots> = (\<lambda>_. 0)(4096 := 4121)"
      by (rule ext) (simp add: zero_store_def)
    finally show ?thesis .
  qed
  show ?thesis
    using f p
    by (simp add: mymalloc_def lazy_init_def heap0_def init_heap_def one_block_heap_def
                  SZ_BLOCK_METADATA_def ALIGN_eq)
qed

lemma second_alloc:
  "mymalloc 4096 one_block_heap 10 = Some (Returned 4128, two_block_heap)"
proof -
  let ?m = "(\<lambda>_. 0)(4096 := 4121) :: memory"
  have used: "IS_INUSE ?m 4096" and nx: "NEXT_ADDRESS ?m 4096 = 4120"
    and free: "\<not> IS_INUSE ?m 4120"
    by (simp_all add: IS_INUSE_odd NEXT_ADDRESS_def IN_USE_BIT_def)
  have "compact_walk ?m 4120 = Some 0"
    using free by (simp add: compact_walk_step compact_walk_stop NEXT_ADDRESS_def)
  then have "do_compact ?m 4120 = Some (?m(4120 := 0))"
    by (simp add: do_compact_def)
  moreover have "?m(4120 := 0) = ?m"
    by (rule ext) simp
  ultimately have c: "do_compact ?m 4120 = Some ?m"
    by simp
  have sz: "BLOCK_SIZE ?m 4120 = 18446744073709547488"
    by (simp add: BLOCK_SIZE_def NEXT_ADDRESS_def SZ_BLOCK_METADATA_def)
  have "find_fit 24 ?m 4120 = Some (?m, 4120)"
    using find_fit_free [OF _ free c, of 24] by (simp add: sz)
  then have f: "find_fit 24 ?m 4096 = Some (?m, 4120)"
    using find_fit_used [OF _ used, of 24] by (simp add: nx)
  have p: "place 24 ?m 4120 = (\<lambda>_. 0)(4096 := 4121, 4120 := 4145)"
  proof -
    have "place 24 ?m 4120 = ?m(4144 := 0, 4120 := 4145)"
      by (simp add: place_eq sz SZ_BLOCK_METADATA_def MY_ALIGNMENT_SZ_def
                    NEXT_ADDRESS_def IN_USE_BIT_def)
    also have "\<dots> = (\<lambda>_. 0)(4096 := 4121, 4120 := 4145)"
      by (rule ext) simp
    finally show ?thesis .
  qed
  show ?thesis
    using f p
    by (simp add: mymalloc_def lazy_init_def one_block_heap_def two_block_heap_def
                  SZ_BLOCK_METADATA_def ALIGN_eq)
qed

lemma reset_one_block: "reset_heap one_block_heap = Some reset_block_heap"
proof -
  let ?m1 = "(\<lambda>_. 0)(4096 := 4121) :: memory"
  let ?m2 = "UNSET_INUSE (UNSET_INUSE ?m1 4096) 4120"
  have n1: "NEXT_ADDRESS ?m1 4096 = 4120" "NEXT_ADDRESS ?m1 4120 = 0"
    by (simp_all add: NEXT_ADDRESS_def IN_USE_BIT_def)
  have "reset_walk ?m1 4096 = Some ?m2"
    by (simp add: reset_walk_step reset_walk_stop n1)
  moreover have "compact_walk ?m2 4096 = Some 0"
    by (simp add: compact_walk_step compact_walk_stop n1)
  then have "do_compact ?m2 4096 = Some (?m2(4096 := 0))"
    by (simp add: do_compact_def)
  moreover have "?m2(4096 := 0) = zero_store"
    by (rule ext) (simp add: zero_store_def UNSET_INUSE_def)
  ultimately show ?thesis
    by (simp add: reset_heap_def one_block_heap_def reset_block_heap_def)
qed

lemma brk_ok_4096: "brk_ok 4096"
  by (simp add: brk_ok_def)

lemma reach_two_blocks:
  "reach 4096 two_block_heap (Map.empty(4104 \<mapsto> 24, 4128 \<mapsto> 24))"
proof -
  have a: "ALIGN (10 + SZ_BLOCK_METADATA) = 24"
    by (simp add: ALIGN_eq SZ_BLOCK_METADATA_def)
  have "reach 4096 (heap0 zero_store) Map.empty"
    by (rule reach.start)
  from reach.allocated [OF this first_alloc]
  have "reach 4096 one_block_heap (Map.empty(4104 \<mapsto> 24))"
    by (simp only: a)
  from reach.allocated [OF this second_alloc] show ?thesis
    by (simp only: a)
qed

section \<open>Reset\<close>

text \<open>
  C2 fails as stated: on a fresh arena at 4096, after one allocation of 10 bytes
  (footprint 24) and a reset, the request of 4072 bytes, whose footprint 4088 is the
  capacity minus one header, is refused, because the available counter is still 4072.
\<close>

theorem reset_then_full_request_refused:
  "mymalloc 4096 (heap0 zero_store) 10 = Some (Returned 4104, one_block_heap)
   \<and> reset_heap one_block_heap = Some reset_block_heap
   \<and> ALIGN (4072 + SZ_BLOCK_METADATA) = 4096 - SZ_BLOCK_METADATA
   \<and> mymalloc 4096 reset_block_heap 4072 = Some (Not_enough_space, reset_block_heap)"
proof -
  have c: "ALIGN (4072 + SZ_BLOCK_METADATA) = 4096 - SZ_BLOCK_METADATA"
    by (simp add: ALIGN_eq SZ_BLOCK_METADATA_def)
  have d: "mymalloc 4096 reset_block_heap 4072 = Some (Not_enough_space, reset_block_heap)"
    by (simp add: mymalloc_def lazy_init_def reset_block_heap_def ALIGN_eq SZ_BLOCK_METADATA_def)
  from first_alloc reset_one_block c d show ?thesis by blast
qed

section \<open>Disjointness of live allocations\<close>

theorem live_allocations_disjoint_witness:
  "brk_ok 4096 \<and> reach 4096 two_block_heap (Map.empty(4104 \<mapsto> 24, 4128 \<mapsto> 24))
   \<and> live_range 4104 24 = {4104 ..< 4120} \<and> live_range 4128 24 = {4128 ..< 4144}
   \<and> live_range 4104 24 \<inter> live_range 4128 24 = {}"
proof -
  let ?L = "Map.empty(4104 \<mapsto> 24 :: 64 word, 4128 \<mapsto> 24 :: 64 word) :: addr \<rightharpoonup> 64 word"
  have "?L 4104 = Some 24" "?L 4128 = Some 24" "(4104 :: addr) \<noteq> 4128"
    by simp_all
  from live_allocations_disjoint [OF brk_ok_4096 reach_two_blocks this]
  have "live_range 4104 24 \<inter> live_range 4128 24 = {}" .
  moreover have "live_range 4104 24 = {4104 ..< 4120}" "live_range 4128 24 = {4128 ..< 4144}"
    by (simp_all add: live_range_def SZ_BLOCK_METADATA_def)
  ultimately show ?thesis
    using brk_ok_4096 reach_two_blocks by blast
qed

lemma reset_walk_total:
  "seg m 0 ys \<Longrightarrow> \<forall>x\<in>set ys. x \<noteq> 0 \<and> \<not> stuck m x \<Longrightarrow> \<exists>m1. reset_walk m (hd_or ys 0) = Some m1"
proof (induction ys arbitrary: m)
  case Nil
  then show ?case by (simp add: reset_walk_stop)
next
  case (Cons b zs)
  then have nx: "NEXT_ADDRESS m b = hd_or zs 0" and b: "b \<noteq> 0" "\<not> stuck m b"
    by simp_all
  from Cons.prems have "seg m 0 zs" by simp
  then have "seg (UNSET_INUSE m b) 0 zs"
    using b(2) by (rule seg_UNSET)
  moreover have "\<forall>x\<in>set zs. x \<noteq> 0 \<and> \<not> stuck (UNSET_INUSE m b) x"
    using Cons.prems(2) by (simp add: stuck_UNSET)
  ultimately obtain m1 where "reset_walk (UNSET_INUSE m b) (hd_or zs 0) = Some m1"
    using Cons.IH by blast
  then show ?case
    using b(1) nx by (simp add: reset_walk_step)
qed

lemma unat_last_block_size:
  "unat b + 8 < 2 ^ 64 \<Longrightarrow> unat (BLOCK_SIZE m b) = 2 ^ 64 - (unat b + 8)" if "NEXT_ADDRESS m b = 0"
proof -
  assume small: "unat b + 8 < 2 ^ 64"
  then have "unat (b + 8) = unat b + unat (8 :: addr)"
    by (intro unat_add_small) simp
  then have u: "unat (b + 8) = unat b + 8" by simp
  have h: "unat (0 - (b + 8)) = 2 ^ 64 - unat (b + 8)"
    using unat_sub_if' [of "0 :: addr" "b + 8"] u by simp
  show ?thesis
    unfolding BLOCK_SIZE_def that SZ_BLOCK_METADATA_def
    using h u by simp
qed

text \<open>After a reset that returns, the arena is one free block.\<close>

lemma reset_heap_single_block:
  assumes inv: "inv_bs brk avail (mem h) L bs" and st: "start_of_heap h = brk"
    and ns: "\<forall>x\<in>set bs. \<not> stuck (mem h) x"
  shows "\<exists>m2. reset_heap h = Some (h\<lparr>mem := m2\<rparr>) \<and> m2 brk = 0"
proof -
  from inv have hd: "bs \<noteq> []" "hd bs = brk"
    and srt: "sorted_wrt (\<lambda>a b. unat a + 8 \<le> unat b) bs"
    and nz: "\<forall>b\<in>set bs. b \<noteq> 0 \<and> even b"
    and sg: "seg (mem h) 0 bs"
    by (simp_all add: inv_bs_def blocks_ok_def)
  from hd obtain ys where bs: "bs = brk # ys" by (cases bs) auto
  then have p: "brk = hd_or bs 0" by simp
  from reset_walk_total [OF sg] nz ns obtain m1 where w: "reset_walk (mem h) brk = Some m1"
    unfolding p by blast
  from reset_walk_frees [OF w] sg nz p
  have sg1: "seg m1 0 ([] @ bs)" and free1: "\<forall>x\<in>set bs. \<not> IS_INUSE m1 x"
    by (metis append_Nil)+
  have ok1: "blocks_ok m1 ([] @ brk # ys)"
    using srt nz sg1 by (simp add: blocks_ok_def bs)
  have "dropWhile (\<lambda>x. \<not> IS_INUSE m1 x) ys = []"
    using free1 by (simp add: bs)
  with blocks_ok_compact(1) [OF ok1] free1 have "do_compact m1 brk = Some (m1(brk := 0))"
    by (simp add: bs)
  with w st have "reset_heap h = Some (h\<lparr>mem := m1(brk := 0)\<rparr>)"
    by (simp add: reset_heap_def)
  then show ?thesis
    by (intro exI [of _ "m1(brk := 0)"]) simp
qed

text \<open>
  C2 as amended: in every reachable state of an initialised heap in which no live
  allocation has footprint 0, \<^verbatim>\<open>reset_heap\<close> returns and leaves the available counter
  as it is; the request that follows, with footprint the capacity minus one header,
  returns the first payload address of the arena when the counter is at least that
  footprint, and is refused otherwise.
\<close>

theorem reset_then_full_request:
  assumes brk: "brk_ok brk" and r: "reach brk h L" and init: "size_heap h \<noteq> 0"
    and nowrap: "\<forall>p. L p \<noteq> Some 0"
    and aux: "ALIGN (n + SZ_BLOCK_METADATA) = 4096 - SZ_BLOCK_METADATA"
  shows "\<exists>h1. reset_heap h = Some h1 \<and> available_size h1 = available_size h
           \<and> (if 4096 - SZ_BLOCK_METADATA \<le> available_size h
               then \<exists>h2. mymalloc brk h1 n = Some (Returned (brk + SZ_BLOCK_METADATA), h2)
               else mymalloc brk h1 n = Some (Not_enough_space, h1))"
proof -
  from reach_inv [OF brk r] init obtain bs where sz: "size_heap h = 4096"
    and st: "start_of_heap h = brk"
    and inv: "inv_bs brk (available_size h) (mem h) L bs"
    by (auto simp: state_inv_def heap_inv_def)
  from inv nowrap have "\<forall>x\<in>set bs. \<not> stuck (mem h) x"
    by (auto simp: inv_bs_def)
  from reset_heap_single_block [OF inv st this] obtain m2 where
    rs: "reset_heap h = Some (h\<lparr>mem := m2\<rparr>)" and z: "m2 brk = 0"
    by blast
  let ?h1 = "h\<lparr>mem := m2\<rparr>"
  have li: "lazy_init brk ?h1 = ?h1"
    using sz by (simp add: lazy_init_def)
  have bnz: "brk \<noteq> 0" using brk by (simp add: brk_ok_def)
  have free: "\<not> IS_INUSE m2 brk" and nx: "NEXT_ADDRESS m2 brk = 0"
    using z by (simp_all add: IS_INUSE_odd NEXT_ADDRESS_def)
  have "compact_walk m2 brk = Some 0"
    using bnz free nx by (simp add: compact_walk_step compact_walk_stop)
  then have "do_compact m2 brk = Some (m2(brk := 0))"
    using bnz by (simp add: do_compact_def)
  moreover have "m2(brk := 0) = m2"
    using z by (auto simp: fun_eq_iff)
  ultimately have c: "do_compact m2 brk = Some m2" by simp
  have "unat brk + 8 < 2 ^ 64"
    using brk by (simp add: brk_ok_def)
  from unat_last_block_size [OF nx this]
  have "unat (BLOCK_SIZE m2 brk) = 2 ^ 64 - (unat brk + 8)" .
  moreover have "unat brk + 4104 < 2 ^ 64"
    using brk by (simp add: brk_ok_def)
  ultimately have "4088 \<le> unat (BLOCK_SIZE m2 brk)"
    by linarith
  then have big: "4096 - SZ_BLOCK_METADATA \<le> BLOCK_SIZE m2 brk"
    by (simp add: word_le_nat_alt SZ_BLOCK_METADATA_def)
  have f: "find_fit (4096 - SZ_BLOCK_METADATA) m2 brk = Some (m2, brk)"
    using find_fit_free [OF bnz free c] big by simp
  have "if 4096 - SZ_BLOCK_METADATA \<le> available_size h
        then \<exists>h2. mymalloc brk ?h1 n = Some (Returned (brk + SZ_BLOCK_METADATA), h2)
        else mymalloc brk ?h1 n = Some (Not_enough_space, ?h1)"
  proof (cases "4096 - SZ_BLOCK_METADATA \<le> available_size h")
    case True
    then have "\<not> available_size h < 4096 - SZ_BLOCK_METADATA" by simp
    with True f bnz st show ?thesis
      by (simp add: mymalloc_def li aux Let_def)
  next
    case False
    then have "available_size h < 4096 - SZ_BLOCK_METADATA" by simp
    with False show ?thesis
      by (simp add: mymalloc_def li aux Let_def)
  qed
  with rs show ?thesis by simp
qed

lemma reach_fresh: "reach 4096 fresh_heap Map.empty"
proof -
  have "mymalloc 4096 (heap0 zero_store) 5000 = Some (Not_enough_space, fresh_heap)"
    by (simp add: mymalloc_def lazy_init_def heap0_def init_heap_def fresh_heap_def ALIGN_eq
                  SZ_BLOCK_METADATA_def)
  from reach.refused [OF reach.start this] show ?thesis .
qed

lemma reach_one_block: "reach 4096 one_block_heap (Map.empty(4104 \<mapsto> 24))"
proof -
  have a: "ALIGN (10 + SZ_BLOCK_METADATA) = 24"
    by (simp add: ALIGN_eq SZ_BLOCK_METADATA_def)
  from reach.allocated [OF reach.start first_alloc] show ?thesis
    by (simp only: a)
qed

theorem reset_then_full_request_witness:
  "brk_ok 4096 \<and> reach 4096 fresh_heap Map.empty \<and> size_heap fresh_heap \<noteq> 0
   \<and> ALIGN (4072 + SZ_BLOCK_METADATA) = 4096 - SZ_BLOCK_METADATA
   \<and> (\<exists>h1 h2. reset_heap fresh_heap = Some h1
         \<and> mymalloc 4096 h1 4072 = Some (Returned (4096 + SZ_BLOCK_METADATA), h2))
   \<and> reach 4096 one_block_heap (Map.empty(4104 \<mapsto> 24)) \<and> size_heap one_block_heap \<noteq> 0
   \<and> (\<exists>h1. reset_heap one_block_heap = Some h1
         \<and> mymalloc 4096 h1 4072 = Some (Not_enough_space, h1))"
proof -
  have a: "ALIGN (4072 + SZ_BLOCK_METADATA) = 4096 - SZ_BLOCK_METADATA"
    by (simp add: ALIGN_eq SZ_BLOCK_METADATA_def)
  have s: "size_heap fresh_heap \<noteq> 0" "size_heap one_block_heap \<noteq> 0"
    by (simp_all add: fresh_heap_def one_block_heap_def)
  have e: "\<forall>p. (Map.empty :: addr \<rightharpoonup> 64 word) p \<noteq> Some 0"
    "\<forall>p. (Map.empty(4104 \<mapsto> 24) :: addr \<rightharpoonup> 64 word) p \<noteq> Some 0"
    by simp_all
  have v: "4096 - SZ_BLOCK_METADATA \<le> available_size fresh_heap"
    "\<not> 4096 - SZ_BLOCK_METADATA \<le> available_size one_block_heap"
    by (simp_all add: fresh_heap_def one_block_heap_def SZ_BLOCK_METADATA_def)
  from reset_then_full_request [OF brk_ok_4096 reach_fresh s(1) e(1) a] v(1)
  have 1: "\<exists>h1 h2. reset_heap fresh_heap = Some h1
         \<and> mymalloc 4096 h1 4072 = Some (Returned (4096 + SZ_BLOCK_METADATA), h2)"
    by auto
  from reset_then_full_request [OF brk_ok_4096 reach_one_block s(2) e(2) a] v(2)
  have 2: "\<exists>h1. reset_heap one_block_heap = Some h1
         \<and> mymalloc 4096 h1 4072 = Some (Not_enough_space, h1)"
    by auto
  from brk_ok_4096 reach_fresh reach_one_block s a 1 2 show ?thesis by blast
qed

section \<open>Chains and adequate blocks\<close>

lemma in_chain_in_list:
  assumes "in_chain m s b" and "seg m 0 bs" and "s \<in> set bs"
  shows "b \<in> set bs"
  using assms
proof (induction rule: in_chain.induct)
  case first
  then show ?case by simp
next
  case (step b)
  then have "b \<in> set bs" by simp
  from seg_next_in [OF step.prems(1) this] step.hyps(2) show ?case by simp
qed

lemma in_chain_trans: "in_chain m b c \<Longrightarrow> in_chain m s b \<Longrightarrow> in_chain m s c"
  by (induction rule: in_chain.induct) (auto intro: in_chain.step)

lemma in_chain_upd:
  assumes "in_chain m s x" and same: "\<And>b. b \<noteq> p \<Longrightarrow> NEXT_ADDRESS m' b = NEXT_ADDRESS m b"
  shows "in_chain m' s x \<or> in_chain m' s p"
  using assms(1)
proof (induction rule: in_chain.induct)
  case first
  then show ?case by (simp add: in_chain.first)
next
  case (step b)
  show ?case
  proof (cases "b = p \<or> in_chain m' s p")
    case True
    with step.IH show ?thesis by blast
  next
    case False
    with step.IH have c: "in_chain m' s b" and "b \<noteq> p" by blast+
    from same [OF this(2)] step.hyps(2) have "NEXT_ADDRESS m' b \<noteq> 0" by simp
    with c have "in_chain m' s (NEXT_ADDRESS m' b)" by (rule in_chain.step)
    with same [OF \<open>b \<noteq> p\<close>] show ?thesis by simp
  qed
qed

lemma in_chain_upd_back:
  assumes "in_chain m' s x" and same: "\<And>b. b \<noteq> p \<Longrightarrow> NEXT_ADDRESS m' b = NEXT_ADDRESS m b"
    and nx: "NEXT_ADDRESS m' p = l"
    and path: "in_chain m s p \<Longrightarrow> l \<noteq> 0 \<Longrightarrow> in_chain m s l"
  shows "in_chain m s x"
  using assms(1)
proof (induction rule: in_chain.induct)
  case first
  then show ?case by (simp add: in_chain.first)
next
  case (step b)
  show ?case
  proof (cases "b = p")
    case True
    with step.hyps(2) nx have "NEXT_ADDRESS m' b = l" "l \<noteq> 0"
      by simp_all
    with step.IH True path show ?thesis by simp
  next
    case False
    from same [OF this] step.hyps(2) have "NEXT_ADDRESS m b \<noteq> 0" by simp
    with step.IH have "in_chain m s (NEXT_ADDRESS m b)" by (rule in_chain.step)
    with same [OF False] show ?thesis by simp
  qed
qed

lemma free_run_in_chain:
  "free_run m b xs l \<Longrightarrow> in_chain m s b \<Longrightarrow> l \<noteq> 0 \<Longrightarrow> in_chain m s l"
proof (induction xs arbitrary: b)
  case Nil
  then show ?case by simp
next
  case (Cons x xs)
  then have r: "free_run m (NEXT_ADDRESS m b) xs l" by simp
  have "NEXT_ADDRESS m b \<noteq> 0"
  proof
    assume "NEXT_ADDRESS m b = 0"
    with r Cons.prems(3) show False by (cases xs) simp_all
  qed
  with Cons.prems(2) have "in_chain m s (NEXT_ADDRESS m b)"
    by (rule in_chain.step)
  with Cons.IH r Cons.prems(3) show ?case by blast
qed

lemma end_of_run_even:
  "\<forall>x\<in>set ys. even x \<Longrightarrow> even (end_of_run m ys)"
proof -
  assume a: "\<forall>x\<in>set ys. even x"
  show ?thesis
  proof (cases "dropWhile (\<lambda>x. \<not> IS_INUSE m x) ys")
    case Nil
    show ?thesis unfolding end_of_run_def Nil by simp
  next
    case (Cons c cs)
    then have "c \<in> set ys"
      by (metis list.set_intros(1) set_dropWhileD)
    with a show ?thesis unfolding end_of_run_def Cons by simp
  qed
qed

lemma search_accepts_char:
  assumes ok: "blocks_ok m (pre @ b # ys)"
  shows "search_accepts aux m b \<longleftrightarrow> \<not> IS_INUSE m b \<and> aux \<le> end_of_run m ys - (b + SZ_BLOCK_METADATA)"
proof (cases "IS_INUSE m b")
  case True
  then show ?thesis by (simp add: search_accepts_def)
next
  case False
  from ok have "\<forall>x\<in>set ys. even x" by (simp add: blocks_ok_def)
  then have ev: "even (end_of_run m ys)" by (rule end_of_run_even)
  from blocks_ok_compact(1) [OF ok False]
  have "do_compact m b = Some (m(b := end_of_run m ys))"
    by (simp add: end_of_run_def)
  with False ev show ?thesis
    by (simp add: search_accepts_def BLOCK_SIZE_def NEXT_ADDRESS_upd_even)
qed

lemma unat_plus_8: "unat (y :: addr) + 8 < 2 ^ 64 \<Longrightarrow> unat (y + 8) = unat y + 8"
proof -
  assume "unat y + 8 < 2 ^ 64"
  then have "unat (y + 8) = unat y + unat (8 :: addr)"
    by (intro unat_add_small) simp
  then show ?thesis by simp
qed

lemma size_shrinks:
  fixes x y l :: addr
  assumes xy: "unat x + 8 \<le> unat y" and y: "unat y + 8 < 2 ^ 64"
    and l: "l = 0 \<or> unat y + 8 \<le> unat l"
  shows "l - (y + 8) \<le> l - (x + 8)"
proof -
  have uy: "unat (y + 8) = unat y + 8"
    using y by (rule unat_plus_8)
  have ux: "unat (x + 8) = unat x + 8"
    using xy y by (intro unat_plus_8) simp
  have "unat (l - (y + 8)) \<le> unat (l - (x + 8))"
  proof (cases "l = 0")
    case True
    have "unat (0 - (y + 8)) = 2 ^ 64 - (unat y + 8)"
      using unat_sub_if' [of "0 :: addr" "y + 8"] uy by simp
    moreover have "unat (0 - (x + 8)) = 2 ^ 64 - (unat x + 8)"
      using unat_sub_if' [of "0 :: addr" "x + 8"] ux by simp
    ultimately show ?thesis
      unfolding True using xy by linarith
  next
    case False
    with l have ly: "unat y + 8 \<le> unat l" by simp
    then have "unat (l - (y + 8)) = unat l - (unat y + 8)"
      using unat_sub_if' [of l "y + 8"] uy by simp
    moreover have "unat (l - (x + 8)) = unat l - (unat x + 8)"
      using unat_sub_if' [of l "x + 8"] ux ly xy by simp
    ultimately show ?thesis
      using xy by linarith
  qed
  then show ?thesis by (simp add: word_le_nat_alt)
qed

lemma end_of_run_cong:
  "(\<And>x. x \<in> set ys \<Longrightarrow> IS_INUSE m' x = IS_INUSE m x) \<Longrightarrow> end_of_run m' ys = end_of_run m ys"
proof -
  assume "\<And>x. x \<in> set ys \<Longrightarrow> IS_INUSE m' x = IS_INUSE m x"
  then have "dropWhile (\<lambda>x. \<not> IS_INUSE m' x) ys = dropWhile (\<lambda>x. \<not> IS_INUSE m x) ys"
    by (intro dropWhile_cong) simp_all
  then show ?thesis by (simp add: end_of_run_def)
qed

text \<open>Coalescing at an earlier block does not change which later blocks are adequate.\<close>

lemma search_accepts_after_compact:
  assumes ok: "blocks_ok m (pre @ p # ys)" and free: "\<not> IS_INUSE m p"
    and b: "b \<in> set (dropWhile (\<lambda>x. \<not> IS_INUSE m x) ys)"
  shows "search_accepts aux (m(p := end_of_run m ys)) b = search_accepts aux m b"
proof -
  let ?run = "takeWhile (\<lambda>x. \<not> IS_INUSE m x) ys"
  let ?rest = "dropWhile (\<lambda>x. \<not> IS_INUSE m x) ys"
  let ?l = "end_of_run m ys"
  let ?m1 = "m(p := ?l)"
  from b obtain r1 r2 where rest: "?rest = r1 @ b # r2"
    by (auto dest: split_list)
  have ys: "ys = ?run @ r1 @ b # r2"
    using rest takeWhile_dropWhile_id [of "\<lambda>x. \<not> IS_INUSE m x" ys] by simp
  have ok1: "blocks_ok ?m1 (pre @ p # ?rest)"
    using blocks_ok_compact(2) [OF ok free] by (simp add: end_of_run_def)
  have "sorted_wrt (\<lambda>a b. unat a + 8 \<le> unat b) (pre @ p # ys)"
    using ok by (simp add: blocks_ok_def)
  then have "distinct (pre @ p # ys)"
    by (rule gap_distinct)
  then have np: "p \<notin> set (b # r2)"
    by (subst (asm) ys) auto
  have same: "IS_INUSE ?m1 x = IS_INUSE m x" if "x \<in> set (b # r2)" for x
  proof -
    from that np have "x \<noteq> p" by blast
    then show ?thesis by (rule IS_INUSE_upd_other)
  qed
  have "blocks_ok m ((pre @ p # ?run @ r1) @ b # r2)"
    using ok by (subst (asm) ys) simp
  then have 1: "search_accepts aux m b \<longleftrightarrow>
      \<not> IS_INUSE m b \<and> aux \<le> end_of_run m r2 - (b + SZ_BLOCK_METADATA)"
    by (rule search_accepts_char)
  have "blocks_ok ?m1 ((pre @ p # r1) @ b # r2)"
    using ok1 by (simp add: rest)
  then have 2: "search_accepts aux ?m1 b \<longleftrightarrow>
      \<not> IS_INUSE ?m1 b \<and> aux \<le> end_of_run ?m1 r2 - (b + SZ_BLOCK_METADATA)"
    by (rule search_accepts_char)
  have "end_of_run ?m1 r2 = end_of_run m r2"
    using same by (intro end_of_run_cong) simp
  with 1 2 same [of b] show ?thesis by simp
qed

text \<open>A free block inside the run that was merged into an inadequate block is
  inadequate itself.\<close>

lemma run_blocks_do_not_fit:
  assumes ok: "blocks_ok m (pre @ p # ys)"
    and b: "b \<in> set (takeWhile (\<lambda>x. \<not> IS_INUSE m x) ys)"
    and small: "unat b + 8 < 2 ^ 64"
    and nofit: "\<not> aux \<le> end_of_run m ys - (p + SZ_BLOCK_METADATA)"
  shows "\<not> search_accepts aux m b"
proof -
  let ?run = "takeWhile (\<lambda>x. \<not> IS_INUSE m x) ys"
  let ?rest = "dropWhile (\<lambda>x. \<not> IS_INUSE m x) ys"
  let ?l = "end_of_run m ys"
  from b obtain r1 r3 where run: "?run = r1 @ b # r3"
    by (auto dest: split_list)
  have ys: "ys = r1 @ b # r3 @ ?rest"
    using run takeWhile_dropWhile_id [of "\<lambda>x. \<not> IS_INUSE m x" ys] by simp
  have "\<forall>x\<in>set ?run. \<not> IS_INUSE m x"
    by (auto dest: set_takeWhileD)
  then have r3: "\<forall>x\<in>set r3. \<not> IS_INUSE m x"
    by (simp add: run)
  have "dropWhile (\<lambda>x. \<not> IS_INUSE m x) (r3 @ ?rest) = dropWhile (\<lambda>x. \<not> IS_INUSE m x) ?rest"
    using r3 by (intro dropWhile_append2) simp
  then have e: "end_of_run m (r3 @ ?rest) = ?l"
    by (simp add: end_of_run_def)
  have okb: "blocks_ok m ((pre @ p # r1) @ b # r3 @ ?rest)"
    using ok by (subst (asm) ys) simp
  from search_accepts_char [OF okb] e
  have f: "search_accepts aux m b \<longleftrightarrow> \<not> IS_INUSE m b \<and> aux \<le> ?l - (b + SZ_BLOCK_METADATA)"
    by simp
  from okb have srt: "sorted_wrt (\<lambda>a b. unat a + 8 \<le> unat b) (pre @ p # r1 @ b # r3 @ ?rest)"
    by (simp add: blocks_ok_def)
  then have pb: "unat p + 8 \<le> unat b"
    by (simp add: sorted_wrt_append)
  have l: "?l = 0 \<or> unat b + 8 \<le> unat ?l"
  proof (cases ?rest)
    case Nil
    show ?thesis unfolding end_of_run_def Nil by simp
  next
    case (Cons c cs)
    have "?l = c" unfolding end_of_run_def Cons by simp
    moreover have "unat b + 8 \<le> unat c"
      using srt unfolding Cons by (simp add: sorted_wrt_append)
    ultimately show ?thesis by simp
  qed
  from size_shrinks [OF pb small l] nofit have "\<not> aux \<le> ?l - (b + 8)"
    by (auto simp: SZ_BLOCK_METADATA_def)
  with f show ?thesis by (simp add: SZ_BLOCK_METADATA_def)
qed

lemma compact_inv_list:
  assumes inv: "inv_bs brk avail m L (pre @ p # ys)" and free: "\<not> IS_INUSE m p"
  shows "do_compact m p = Some (m(p := end_of_run m ys))"
    and "inv_bs brk avail (m(p := end_of_run m ys)) L
           (pre @ p # dropWhile (\<lambda>x. \<not> IS_INUSE m x) ys)"
proof -
  let ?rest = "dropWhile (\<lambda>x. \<not> IS_INUSE m x) ys"
  let ?l = "end_of_run m ys"
  let ?m1 = "m(p := ?l)"
  from inv have ok: "blocks_ok m (pre @ p # ys)"
    and bound0: "\<forall>x\<in>set (pre @ p # ys). unat x + unat avail \<le> top_of brk"
    and hd0: "hd (pre @ p # ys) = brk"
    and lv0: "live_ok brk m (pre @ p # ys) L"
    and st0: "\<forall>x\<in>set (pre @ p # ys). stuck m x \<longrightarrow> L (x + SZ_BLOCK_METADATA) = Some 0"
    by (simp_all add: inv_bs_def)
  from blocks_ok_compact [OF ok free]
  have c: "do_compact m p = Some ?m1" and ok1: "blocks_ok ?m1 (pre @ p # ?rest)"
    by (simp_all add: end_of_run_def)
  from c show "do_compact m p = Some ?m1" .
  have ev: "even ?l"
    using ok by (intro end_of_run_even) (simp add: blocks_ok_def)
  have sub2: "set (pre @ p # ?rest) \<subseteq> set (pre @ p # ys)"
    by (auto dest: set_dropWhileD)
  have keep: "x \<in> set (pre @ p # ?rest) \<and> ?m1 x = m x"
    if "x \<in> set (pre @ p # ys)" "IS_INUSE m x" for x
  proof -
    from that(2) free have ne: "x \<noteq> p" by auto
    have "x \<in> set ?rest" if "x \<in> set ys"
    proof -
      have "set ys = set (takeWhile (\<lambda>x. \<not> IS_INUSE m x) ys) \<union> set ?rest"
        by (metis set_append takeWhile_dropWhile_id)
      moreover have "x \<notin> set (takeWhile (\<lambda>x. \<not> IS_INUSE m x) ys)"
        using \<open>IS_INUSE m x\<close> by (auto dest: set_takeWhileD)
      ultimately show ?thesis using that by auto
    qed
    with that(1) ne show ?thesis by auto
  qed
  have lv1: "live_ok brk ?m1 (pre @ p # ?rest) L"
    using lv0 keep by (rule live_ok_cong)
  have st1: "\<forall>x\<in>set (pre @ p # ?rest). stuck ?m1 x \<longrightarrow> L (x + SZ_BLOCK_METADATA) = Some 0"
  proof (intro ballI impI)
    fix x assume x: "x \<in> set (pre @ p # ?rest)" and s: "stuck ?m1 x"
    from s ev have "x \<noteq> p" by (auto simp: stuck_def IS_INUSE_upd)
    then have "stuck m x" using s stuck_cong [of ?m1 x m] by simp
    with st0 x sub2 show "L (x + SZ_BLOCK_METADATA) = Some 0" by blast
  qed
  have hd1: "hd (pre @ p # ?rest) = brk"
    using hd0 by (cases pre) simp_all
  have ne1: "pre @ p # ?rest \<noteq> []" by simp
  have bound1: "\<forall>x\<in>set (pre @ p # ?rest). unat x + unat avail \<le> top_of brk"
    using bound0 sub2 by blast
  show "inv_bs brk avail ?m1 L (pre @ p # ?rest)"
    unfolding inv_bs_def using ne1 hd1 ok1 bound1 lv1 st1 by blast
qed

lemma inv_small:
  assumes "brk_ok brk" and "inv_bs brk avail m L bs" and "b \<in> set bs"
  shows "unat b + 8 < 2 ^ 64"
proof -
  from assms(2,3) have "unat b + unat avail \<le> top_of brk" by (simp add: inv_bs_def)
  with top_of_bound [OF assms(1)] show ?thesis by linarith
qed

lemma next_ge:
  assumes ok: "blocks_ok m bs" and p: "p \<in> set bs" and q: "NEXT_ADDRESS m p \<noteq> 0"
  shows "unat p \<le> unat (NEXT_ADDRESS m p)"
proof -
  from p obtain pre ys where bs: "bs = pre @ p # ys" by (auto dest: split_list)
  from ok have srt: "sorted_wrt (\<lambda>a b. unat a + 8 \<le> unat b) (pre @ p # ys)"
    and sg: "seg m 0 (pre @ p # ys)"
    by (simp_all add: blocks_ok_def bs)
  from sg have "NEXT_ADDRESS m p = hd_or ys 0 \<or> stuck m p"
    by (simp add: seg_append)
  then show ?thesis
  proof
    assume n: "NEXT_ADDRESS m p = hd_or ys 0"
    with q obtain cs where ys: "ys = NEXT_ADDRESS m p # cs" by (cases ys) auto
    from srt have "unat p + 8 \<le> unat (NEXT_ADDRESS m p)"
      by (subst (asm) ys) (simp add: sorted_wrt_append)
    then show ?thesis by simp
  next
    assume "stuck m p"
    then show ?thesis by (simp add: stuck_def)
  qed
qed

text \<open>The search result seen from a block in use: what holds from the next block on
  holds from this block on.\<close>

lemma first_fit_used_step:
  assumes inv: "inv_bs brk avail m L bs" and p: "p \<in> set bs" and used: "IS_INUSE m p"
    and q: "NEXT_ADDRESS m p \<noteq> 0"
    and le: "unat (NEXT_ADDRESS m p) \<le> unat tmp"
    and none: "\<forall>b\<in>set bs. unat (NEXT_ADDRESS m p) \<le> unat b \<and> unat b < unat tmp \<longrightarrow> \<not> search_accepts aux m b"
  shows "unat p \<le> unat tmp"
    and "\<forall>b\<in>set bs. unat p \<le> unat b \<and> unat b < unat tmp \<longrightarrow> \<not> search_accepts aux m b"
proof -
  let ?q = "NEXT_ADDRESS m p"
  from inv have ok: "blocks_ok m bs" by (simp add: inv_bs_def)
  from inv_next_in [OF inv p] q have qin: "?q \<in> set bs" by simp
  have pq: "unat p \<le> unat ?q"
    using ok p q by (rule next_ge)
  with le show "unat p \<le> unat tmp" by simp
  show "\<forall>b\<in>set bs. unat p \<le> unat b \<and> unat b < unat tmp \<longrightarrow> \<not> search_accepts aux m b"
  proof (intro ballI impI)
    fix b assume b: "b \<in> set bs" and r: "unat p \<le> unat b \<and> unat b < unat tmp"
    show "\<not> search_accepts aux m b"
    proof (cases "b = p")
      case True
      with used show ?thesis by (simp add: search_accepts_def)
    next
      case False
      then have "unat p \<noteq> unat b" by (simp add: word_unat_eq_iff)
      with r have "unat p < unat b" by simp
      from next_le [OF ok p b this] have "unat ?q \<le> unat b"
        by (auto simp: stuck_def r)
      with none b r show ?thesis by blast
    qed
  qed
qed

text \<open>The search result seen from a free block that was coalesced and found too small:
  what holds in the coalesced heap from the end of the run on, holds in the heap before
  from this block on.\<close>

lemma first_fit_free_step:
  assumes brk: "brk_ok brk" and inv: "inv_bs brk avail m L (pre @ p # ys)"
    and free: "\<not> IS_INUSE m p"
    and nofit: "\<not> aux \<le> BLOCK_SIZE (m(p := end_of_run m ys)) p"
    and l: "end_of_run m ys \<noteq> 0"
    and tmp: "tmp \<in> set (pre @ p # dropWhile (\<lambda>x. \<not> IS_INUSE m x) ys)"
    and fit: "search_accepts aux (m(p := end_of_run m ys)) tmp"
    and le: "unat (end_of_run m ys) \<le> unat tmp"
    and none: "\<forall>b\<in>set (pre @ p # dropWhile (\<lambda>x. \<not> IS_INUSE m x) ys).
                 unat (end_of_run m ys) \<le> unat b \<and> unat b < unat tmp
                 \<longrightarrow> \<not> search_accepts aux (m(p := end_of_run m ys)) b"
  shows "tmp \<in> set (pre @ p # ys)" and "search_accepts aux m tmp" and "unat p \<le> unat tmp"
    and "\<forall>b\<in>set (pre @ p # ys). unat p \<le> unat b \<and> unat b < unat tmp \<longrightarrow> \<not> search_accepts aux m b"
proof -
  let ?run = "takeWhile (\<lambda>x. \<not> IS_INUSE m x) ys"
  let ?rest = "dropWhile (\<lambda>x. \<not> IS_INUSE m x) ys"
  let ?l = "end_of_run m ys"
  let ?m1 = "m(p := ?l)"
  from inv have ok: "blocks_ok m (pre @ p # ys)" by (simp add: inv_bs_def)
  then have srt: "sorted_wrt (\<lambda>a b. unat a + 8 \<le> unat b) (pre @ p # ys)"
    by (simp add: blocks_ok_def)
  have ys: "ys = ?run @ ?rest" by simp
  from l obtain cs where rest: "?rest = ?l # cs"
    unfolding end_of_run_def by (cases ?rest) auto
  have srt': "sorted_wrt (\<lambda>a b. unat a + 8 \<le> unat b) (pre @ p # ?run @ ?l # cs)"
    using srt by (subst (asm) ys) (simp add: rest)
  then have below: "\<forall>x\<in>set (pre @ [p]). unat x + 8 \<le> unat ?l"
    and above: "\<forall>x\<in>set cs. unat ?l + 8 \<le> unat x"
    and pre_p: "\<forall>x\<in>set pre. unat x + 8 \<le> unat p"
    by (auto simp: sorted_wrt_append)
  have in_rest: "b \<in> set ?rest" if "b \<in> set (pre @ p # ?rest)" "unat ?l \<le> unat b" for b
    using that below by fastforce
  have l_min: "unat ?l \<le> unat b" if "b \<in> set ?rest" for b
    using that above unfolding rest by fastforce
  have ev: "even ?l"
    using ok by (intro end_of_run_even) (simp add: blocks_ok_def)
  have sz: "BLOCK_SIZE ?m1 p = ?l - (p + SZ_BLOCK_METADATA)"
    using ev by (simp add: BLOCK_SIZE_def NEXT_ADDRESS_upd_even)
  have t: "tmp \<in> set ?rest"
    using tmp le by (rule in_rest)
  then show "tmp \<in> set (pre @ p # ys)"
    by (auto dest: set_dropWhileD)
  from search_accepts_after_compact [OF ok free t] fit show "search_accepts aux m tmp" by simp
  from below le show "unat p \<le> unat tmp" by simp
  show "\<forall>b\<in>set (pre @ p # ys). unat p \<le> unat b \<and> unat b < unat tmp \<longrightarrow> \<not> search_accepts aux m b"
  proof (intro ballI impI)
    fix b assume b: "b \<in> set (pre @ p # ys)" and r: "unat p \<le> unat b \<and> unat b < unat tmp"
    from b ys have "b \<in> set pre \<or> b = p \<or> b \<in> set ?run \<or> b \<in> set ?rest"
      by (metis Un_iff set_ConsD set_append)
    then consider "b \<in> set pre" | "b = p" | "b \<in> set ?run" | "b \<in> set ?rest"
      by blast
    then show "\<not> search_accepts aux m b"
    proof cases
      case 1
      with pre_p r show ?thesis by fastforce
    next
      case 2
      from compact_inv_list(1) [OF inv free] nofit show ?thesis
        by (simp add: search_accepts_def 2)
    next
      case 3
      have "unat b + 8 < 2 ^ 64"
        using brk inv b by (rule inv_small)
      with ok 3 show ?thesis
        using nofit unfolding sz by (rule run_blocks_do_not_fit)
    next
      case 4
      then have "b \<in> set (pre @ p # ?rest)" by simp
      with none l_min [OF 4] r have "\<not> search_accepts aux ?m1 b" by blast
      with search_accepts_after_compact [OF ok free 4] show ?thesis by simp
    qed
  qed
qed

lemma hd_or_in: "hd_or xs 0 = 0 \<or> hd_or xs 0 \<in> set xs"
  by (cases xs) simp_all

text \<open>A block the search stops at is a block of the list, reachable from where the
  search started, adequate, and no block of the list between the starting point and it
  is adequate.\<close>

lemma find_fit_first:
  assumes "find_fit aux m p = Some r" and brk: "brk_ok brk"
    and "inv_bs brk avail m L bs" and "p = 0 \<or> p \<in> set bs"
  shows "(p = 0 \<longrightarrow> snd r = 0)
         \<and> (snd r \<noteq> 0 \<longrightarrow>
              snd r \<in> set bs \<and> search_accepts aux m (snd r) \<and> unat p \<le> unat (snd r)
              \<and> (\<forall>b\<in>set bs. unat p \<le> unat b \<and> unat b < unat (snd r) \<longrightarrow> \<not> search_accepts aux m b)
              \<and> (\<forall>s. in_chain m s p \<longrightarrow> in_chain m s (snd r)))"
  using assms(1,3,4)
proof (induction aux m p r arbitrary: bs rule: find_fit.raw_induct [rotated 1, consumes 1])
  case (1 ff aux m p r)
  note inv = \<open>inv_bs brk avail m L bs\<close>
  show ?case
  proof (cases "p = 0")
    case True
    with 1(2) show ?thesis by auto
  next
    case nz: False
    with 1(4) have p: "p \<in> set bs" by simp
    show ?thesis
    proof (cases "IS_INUSE m p")
      case used: True
      let ?q = "NEXT_ADDRESS m p"
      from nz used 1(2) have rec: "ff aux m ?q = Some r" by simp
      have q: "?q = 0 \<or> ?q \<in> set bs"
        using inv_next_in [OF inv p] .
      note IH = 1(1) [OF rec inv q]
      show ?thesis
      proof (intro conjI impI)
        assume "p = 0" with nz show "snd r = 0" by simp
      next
        assume t: "snd r \<noteq> 0"
        with IH have qnz: "?q \<noteq> 0" by blast
        from IH t have a: "snd r \<in> set bs" "search_accepts aux m (snd r)" "unat ?q \<le> unat (snd r)"
          and none: "\<forall>b\<in>set bs. unat ?q \<le> unat b \<and> unat b < unat (snd r) \<longrightarrow> \<not> search_accepts aux m b"
          and chain: "\<forall>s. in_chain m s ?q \<longrightarrow> in_chain m s (snd r)"
          by blast+
        from a show "snd r \<in> set bs" "search_accepts aux m (snd r)" by blast+
        from first_fit_used_step [OF inv p used qnz a(3) none]
        show "unat p \<le> unat (snd r)"
          and "\<forall>b\<in>set bs. unat p \<le> unat b \<and> unat b < unat (snd r) \<longrightarrow> \<not> search_accepts aux m b"
          by blast+
        show "\<forall>s. in_chain m s p \<longrightarrow> in_chain m s (snd r)"
          using chain qnz by (blast intro: in_chain.step)
      qed
    next
      case free: False
      from p obtain pre ys where bs: "bs = pre @ p # ys"
        by (auto dest: split_list)
      let ?l = "end_of_run m ys"
      let ?m1 = "m(p := ?l)"
      let ?bs1 = "pre @ p # dropWhile (\<lambda>x. \<not> IS_INUSE m x) ys"
      from compact_inv_list [OF inv [unfolded bs] free]
      have c: "do_compact m p = Some ?m1" and inv1: "inv_bs brk avail ?m1 L ?bs1"
        by blast+
      have ev: "even ?l"
        using inv unfolding bs
        by (intro end_of_run_even) (simp add: inv_bs_def blocks_ok_def)
      then have nx1: "NEXT_ADDRESS ?m1 p = ?l"
        by (simp add: NEXT_ADDRESS_upd_even)
      show ?thesis
      proof (cases "aux \<le> BLOCK_SIZE ?m1 p")
        case True
        with nz free c 1(2) have "r = (?m1, p)" by simp
        then have r: "snd r = p" by simp
        have "search_accepts aux m p"
          using free c True by (simp add: search_accepts_def)
        moreover have "\<forall>b\<in>set bs. unat p \<le> unat b \<and> unat b < unat p \<longrightarrow> \<not> search_accepts aux m b"
          by auto
        ultimately show ?thesis
          unfolding r using p nz by blast
      next
        case nofit: False
        with nz free c 1(2) nx1 have rec: "ff aux ?m1 ?l = Some r" by simp
        have l: "?l = 0 \<or> ?l \<in> set ?bs1"
          unfolding end_of_run_def
          using hd_or_in [of "dropWhile (\<lambda>x. \<not> IS_INUSE m x) ys"] by auto
        note IH = 1(1) [OF rec inv1 l]
        show ?thesis
        proof (intro conjI impI)
          assume "p = 0" with nz show "snd r = 0" by simp
        next
          assume t: "snd r \<noteq> 0"
          with IH have lnz: "?l \<noteq> 0" by blast
          from IH t have a: "snd r \<in> set ?bs1" "search_accepts aux ?m1 (snd r)" "unat ?l \<le> unat (snd r)"
            and none: "\<forall>b\<in>set ?bs1. unat ?l \<le> unat b \<and> unat b < unat (snd r)
                         \<longrightarrow> \<not> search_accepts aux ?m1 b"
            and chain: "\<forall>s. in_chain ?m1 s ?l \<longrightarrow> in_chain ?m1 s (snd r)"
            by blast+
          from first_fit_free_step [OF brk inv [unfolded bs] free nofit lnz a none]
          show "snd r \<in> set bs" "search_accepts aux m (snd r)" "unat p \<le> unat (snd r)"
            and "\<forall>b\<in>set bs. unat p \<le> unat b \<and> unat b < unat (snd r) \<longrightarrow> \<not> search_accepts aux m b"
            unfolding bs by blast+
          show "\<forall>s. in_chain m s p \<longrightarrow> in_chain m s (snd r)"
          proof (intro allI impI)
            fix s assume sp: "in_chain m s p"
            have same: "NEXT_ADDRESS ?m1 b = NEXT_ADDRESS m b" if "b \<noteq> p" for b
              using that by (rule NEXT_ADDRESS_upd_other)
            from in_chain_upd [OF sp same] have "in_chain ?m1 s p" by blast
            then have "in_chain ?m1 s ?l"
              using in_chain.step [of ?m1 s p] nx1 lnz by simp
            with chain have "in_chain ?m1 s (snd r)" by blast
            moreover have "in_chain m s ?l"
            proof -
              from c have "compact_walk m p = Some ?l"
                by (auto simp: do_compact_Some fun_eq_iff split: if_splits)
              then obtain xs where "free_run m p xs ?l"
                using compact_walk_free_run by blast
              from free_run_in_chain [OF this sp lnz] show ?thesis .
            qed
            ultimately show "in_chain m s (snd r)"
              using same nx1 by (intro in_chain_upd_back [of ?m1 s "snd r" p m ?l]) auto
          qed
        qed
      qed
    qed
  qed
qed

lemma hd_least:
  assumes "inv_bs brk avail m L bs" and "b \<in> set bs"
  shows "unat brk \<le> unat b"
proof -
  from assms(1) obtain ys where bs: "bs = brk # ys"
    by (cases bs) (auto simp: inv_bs_def)
  from assms(1) have "sorted_wrt (\<lambda>a b. unat a + 8 \<le> unat b) (brk # ys)"
    by (simp add: inv_bs_def blocks_ok_def bs)
  with assms(2) show ?thesis by (fastforce simp: bs)
qed

text \<open>
  In every reachable state, when \<^verbatim>\<open>mymalloc\<close> returns a pointer, the block it hands
  out is a block of the chain that starts at the arena base (in the heap as the call
  finds it, after the lazy initialisation), the search loop's test accepts it, and the
  test accepts no block of the chain at a lower address.
\<close>

lemma search_takes_first_accepted:
  assumes brk: "brk_ok brk" and r: "reach brk h L"
    and call: "mymalloc brk h n = Some (Returned p, h')"
  shows "in_chain (mem (lazy_init brk h)) brk (p - SZ_BLOCK_METADATA)
         \<and> search_accepts (ALIGN (n + SZ_BLOCK_METADATA)) (mem (lazy_init brk h)) (p - SZ_BLOCK_METADATA)
         \<and> (\<forall>b. in_chain (mem (lazy_init brk h)) brk b \<and> unat b < unat (p - SZ_BLOCK_METADATA)
                \<longrightarrow> \<not> search_accepts (ALIGN (n + SZ_BLOCK_METADATA)) (mem (lazy_init brk h)) b)"
proof -
  let ?aux = "ALIGN (n + SZ_BLOCK_METADATA)"
  let ?h = "lazy_init brk h"
  let ?m = "mem ?h"
  from call obtain m' tmp where
    f: "find_fit ?aux ?m (start_of_heap ?h) = Some (m', tmp)"
    and tmp: "tmp \<noteq> 0" and p: "p = tmp + SZ_BLOCK_METADATA"
    unfolding mymalloc_Returned by blast
  from lazy_init_inv [OF brk reach_inv [OF brk r]] obtain bs where
    st: "start_of_heap ?h = brk" and inv: "inv_bs brk (available_size ?h) ?m L bs"
    by (auto simp: heap_inv_def)
  from inv have b0: "brk \<in> set bs" by (auto simp: inv_bs_def)
  from find_fit_first [OF f [unfolded st] brk inv] b0 tmp
  have a: "search_accepts ?aux ?m tmp"
    and none: "\<forall>b\<in>set bs. unat brk \<le> unat b \<and> unat b < unat tmp \<longrightarrow> \<not> search_accepts ?aux ?m b"
    and chain: "\<forall>s. in_chain ?m s brk \<longrightarrow> in_chain ?m s tmp"
    by simp_all
  have bnz: "brk \<noteq> 0" using brk by (simp add: brk_ok_def)
  then have "in_chain ?m brk brk" by (rule in_chain.first)
  with chain have c: "in_chain ?m brk tmp" by blast
  have "\<not> search_accepts ?aux ?m b" if "in_chain ?m brk b" "unat b < unat tmp" for b
  proof -
    from inv have "seg ?m 0 bs" by (simp add: inv_bs_def blocks_ok_def)
    from in_chain_in_list [OF that(1) this b0] have "b \<in> set bs" .
    with none hd_least [OF inv this] that(2) show ?thesis by blast
  qed
  with a c show ?thesis by (simp add: p)
qed

section \<open>Requests on a fresh arena\<close>

lemma lazy_init_fresh: "lazy_init 4096 (heap0 zero_store) = fresh_heap"
  by (simp add: lazy_init_def heap0_def init_heap_def fresh_heap_def)

lemma fresh_search:
  assumes "a \<le> 4096"
  shows "find_fit a (mem fresh_heap) 4096 = Some (mem fresh_heap, 4096)"
    and "BLOCK_SIZE (mem fresh_heap) 4096 = 18446744073709547512"
proof -
  let ?m = "zero_store(4096 := 0)"
  have free: "\<not> IS_INUSE ?m 4096"
    by (simp add: IS_INUSE_odd)
  have "compact_walk ?m 4096 = Some 0"
    using free by (simp add: compact_walk_step compact_walk_stop NEXT_ADDRESS_def)
  then have c: "do_compact ?m 4096 = Some ?m"
    by (simp add: do_compact_def)
  have sz: "BLOCK_SIZE ?m 4096 = 18446744073709547512"
    by (simp add: BLOCK_SIZE_def NEXT_ADDRESS_def SZ_BLOCK_METADATA_def)
  have "unat a \<le> 4096"
    using assms by (simp add: word_le_nat_alt)
  then have "a \<le> BLOCK_SIZE ?m 4096"
    by (simp add: sz word_le_nat_alt)
  then have "find_fit a ?m 4096 = Some (?m, 4096)"
    using find_fit_free [OF _ free c, of a] by simp
  then show "find_fit a (mem fresh_heap) 4096 = Some (mem fresh_heap, 4096)"
    by (simp add: fresh_heap_def)
  from sz show "BLOCK_SIZE (mem fresh_heap) 4096 = 18446744073709547512"
    by (simp add: fresh_heap_def)
qed

lemma fresh_alloc:
  assumes "ALIGN (n + SZ_BLOCK_METADATA) = a" and "a \<le> 4096"
  shows "mymalloc 4096 (heap0 zero_store) n =
           Some (Returned 4104,
                 \<lparr>size_heap = 4096, available_size = 4096 - a, start_of_heap = 4096,
                    mem = place a (mem fresh_heap) 4096\<rparr>)"
proof -
  have "\<not> available_size fresh_heap < a"
    using assms(2) by (simp add: fresh_heap_def)
  then show ?thesis
    using fresh_search(1) [OF assms(2)]
    by (simp add: mymalloc_def lazy_init_fresh assms(1) Let_def)
       (simp add: fresh_heap_def SZ_BLOCK_METADATA_def)
qed

lemma fresh_place:
  assumes "a \<le> 4096" and "even a"
  shows "place a (mem fresh_heap) 4096 = (mem fresh_heap)(4096 + a := 0, 4096 := (4096 + a) OR 1)"
proof -
  have "unat a \<le> 4096"
    using assms(1) by (simp add: word_le_nat_alt)
  then have "unat (a + 16) = unat a + unat (16 :: addr)"
    by (intro unat_add_small) simp
  then have "unat (a + 8 + 8) \<le> 4112"
    using \<open>unat a \<le> 4096\<close> by (simp add: add.assoc)
  moreover have "unat (BLOCK_SIZE (mem fresh_heap) 4096) = 18446744073709547512"
    by (simp add: fresh_search(2) [OF assms(1)])
  ultimately have "unat (a + 8 + 8) \<le> unat (BLOCK_SIZE (mem fresh_heap) 4096)"
    by linarith
  then have "a + SZ_BLOCK_METADATA + MY_ALIGNMENT_SZ \<le> BLOCK_SIZE (mem fresh_heap) 4096"
    by (simp only: word_le_nat_alt SZ_BLOCK_METADATA_def MY_ALIGNMENT_SZ_def)
  moreover have "NEXT_ADDRESS (mem fresh_heap) 4096 = 0"
    by (simp add: fresh_heap_def NEXT_ADDRESS_def)
  ultimately show ?thesis
    by (simp add: place_eq IN_USE_BIT_def)
qed

section \<open>First fit and the last block\<close>

text \<open>
  C6 fails on the code: on a fresh arena at 4096 the chain is the single free block at
  4096, whose size is the 4088 bytes from its payload to the end of the arena. For the
  request of 4080 bytes the footprint is 4096, so no block of the chain is adequate and
  first fit selects none; \<^verbatim>\<open>mymalloc\<close> returns the payload of that block all the same.
\<close>

theorem first_fit_takes_short_last_block:
  "lazy_init 4096 (heap0 zero_store) = fresh_heap
   \<and> chain (mem fresh_heap) (start_of_heap fresh_heap) [4096]
   \<and> \<not> IS_INUSE (mem fresh_heap) 4096
   \<and> spec_block_size fresh_heap 4096 (end_of_run (mem fresh_heap) []) = 4088
   \<and> ALIGN (4080 + SZ_BLOCK_METADATA) = 4096
   \<and> \<not> spec_adequate (ALIGN (4080 + SZ_BLOCK_METADATA)) fresh_heap 4096 []
   \<and> spec_first_fit (ALIGN (4080 + SZ_BLOCK_METADATA)) fresh_heap [4096] = None
   \<and> mymalloc 4096 (heap0 zero_store) 4080 = Some (Returned (4096 + SZ_BLOCK_METADATA), full_heap)"
proof -
  have a: "ALIGN (4080 + SZ_BLOCK_METADATA) = 4096"
    by (simp add: ALIGN_eq SZ_BLOCK_METADATA_def)
  have c: "chain (mem fresh_heap) (start_of_heap fresh_heap) [4096]"
    by (simp add: fresh_heap_def NEXT_ADDRESS_def)
  have f: "\<not> IS_INUSE (mem fresh_heap) 4096"
    by (simp add: fresh_heap_def IS_INUSE_odd)
  have s: "spec_block_size fresh_heap 4096 (end_of_run (mem fresh_heap) []) = 4088"
    by (simp add: spec_block_size_def end_of_run_def fresh_heap_def SZ_BLOCK_METADATA_def)
  have n: "\<not> spec_adequate 4096 fresh_heap 4096 []"
    by (simp add: spec_adequate_def s)
  then have ff: "spec_first_fit 4096 fresh_heap [4096] = None"
    by simp
  have "place 4096 (mem fresh_heap) 4096 = (mem fresh_heap)(8192 := 0, 4096 := 8193)"
    using fresh_place [of 4096] by simp
  also have "\<dots> = zero_store(4096 := 8193)"
    by (rule ext) (simp add: fresh_heap_def zero_store_def)
  finally have p: "place 4096 (mem fresh_heap) 4096 = zero_store(4096 := 8193)" .
  have r: "mymalloc 4096 (heap0 zero_store) 4080 = Some (Returned (4096 + SZ_BLOCK_METADATA), full_heap)"
    using fresh_alloc [OF a] by (simp add: p full_heap_def SZ_BLOCK_METADATA_def)
  from lazy_init_fresh c f s a n ff r show ?thesis
    by (simp only: a) simp
qed

section \<open>Splitting and the last block\<close>

text \<open>
  C8 fails on the code. On a fresh arena at 4096 the request of 4072 bytes has footprint
  4088, the block chosen is the only block, its size is 4088, less than the footprint plus
  one header plus one alignment unit, so the block is to be handed over whole; the code
  splits it, storing a header at 8184 and pointing the chosen block at it. The request
  of \<open>2^64 - 16\<close> bytes has footprint 0; the code takes the split branch, the address of
  the new block is the chosen block itself, and what is left there is an in-use block
  whose next reference is its own address, not a free block with the old null reference.
\<close>

theorem split_of_short_last_block:
  "lazy_init 4096 (heap0 zero_store) = fresh_heap
   \<and> ALIGN (4072 + SZ_BLOCK_METADATA) = 4088
   \<and> find_fit 4088 (mem fresh_heap) (start_of_heap fresh_heap) = Some (mem fresh_heap, 4096)
   \<and> NEXT_ADDRESS (mem fresh_heap) 4096 = 0
   \<and> spec_block_size fresh_heap 4096 0 = 4088
   \<and> \<not> spec_splits 4088 fresh_heap 4096 0
   \<and> mymalloc 4096 (heap0 zero_store) 4072 = Some (Returned 4104, short_split_heap)
   \<and> NEXT_ADDRESS (mem short_split_heap) 4096 = 4096 + 4088
   \<and> ALIGN (- 16 + SZ_BLOCK_METADATA) = 0
   \<and> mymalloc 4096 (heap0 zero_store) (- 16) = Some (Returned 4104, wrapped_heap)
   \<and> IS_INUSE (mem wrapped_heap) (4096 + 0)
   \<and> NEXT_ADDRESS (mem wrapped_heap) (4096 + 0) = 4096"
proof -
  have a: "ALIGN (4072 + SZ_BLOCK_METADATA) = 4088"
    by (simp add: ALIGN_eq SZ_BLOCK_METADATA_def)
  have f: "find_fit 4088 (mem fresh_heap) (start_of_heap fresh_heap) = Some (mem fresh_heap, 4096)"
    using fresh_search(1) [of 4088] by (simp add: fresh_heap_def)
  have nx: "NEXT_ADDRESS (mem fresh_heap) 4096 = 0"
    by (simp add: fresh_heap_def NEXT_ADDRESS_def)
  have s: "spec_block_size fresh_heap 4096 0 = 4088"
    by (simp add: spec_block_size_def fresh_heap_def SZ_BLOCK_METADATA_def)
  have ns: "\<not> spec_splits 4088 fresh_heap 4096 0"
    by (simp add: spec_splits_def s SZ_BLOCK_METADATA_def MY_ALIGNMENT_SZ_def)
  have "place 4088 (mem fresh_heap) 4096 = (mem fresh_heap)(8184 := 0, 4096 := 8185)"
    using fresh_place [of 4088] by simp
  also have "\<dots> = zero_store(4096 := 8185)"
    by (rule ext) (simp add: fresh_heap_def zero_store_def)
  finally have p: "place 4088 (mem fresh_heap) 4096 = zero_store(4096 := 8185)" .
  have r: "mymalloc 4096 (heap0 zero_store) 4072 = Some (Returned 4104, short_split_heap)"
    using fresh_alloc [OF a] by (simp add: p short_split_heap_def)
  have n2: "NEXT_ADDRESS (mem short_split_heap) 4096 = 4096 + 4088"
    by (simp add: short_split_heap_def NEXT_ADDRESS_def IN_USE_BIT_def)
  have a0: "ALIGN (- 16 + SZ_BLOCK_METADATA) = 0"
    by (simp add: ALIGN_eq SZ_BLOCK_METADATA_def)
  have "place 0 (mem fresh_heap) 4096 = (mem fresh_heap)(4096 := 0, 4096 := 4097)"
    using fresh_place [of 0] by simp
  also have "\<dots> = zero_store(4096 := 4097)"
    by (rule ext) (simp add: fresh_heap_def zero_store_def)
  finally have p0: "place 0 (mem fresh_heap) 4096 = zero_store(4096 := 4097)" .
  have r0: "mymalloc 4096 (heap0 zero_store) (- 16) = Some (Returned 4104, wrapped_heap)"
    using fresh_alloc [OF a0] by (simp add: p0 wrapped_heap_def)
  have w: "IS_INUSE (mem wrapped_heap) (4096 + 0)" "NEXT_ADDRESS (mem wrapped_heap) (4096 + 0) = 4096"
    by (simp_all add: wrapped_heap_def IS_INUSE_odd NEXT_ADDRESS_def IN_USE_BIT_def)
  from lazy_init_fresh a f nx s ns r n2 a0 r0 w show ?thesis
    by blast
qed

section \<open>The search against first fit on sizes\<close>

lemma chain_self_loop: "chain m b cs \<Longrightarrow> b \<noteq> 0 \<Longrightarrow> NEXT_ADDRESS m b = b \<Longrightarrow> False"
  by (induction cs) auto

lemma chain_is_block_list:
  "chain m p cs \<Longrightarrow> seg m 0 ys \<Longrightarrow> \<forall>x\<in>set ys. x \<noteq> 0 \<Longrightarrow> p = hd_or ys 0 \<Longrightarrow> cs = ys"
proof (induction cs arbitrary: p ys)
  case Nil
  then show ?case by (cases ys) auto
next
  case (Cons b cs)
  then have b: "p = b" "b \<noteq> 0" and rest: "chain m (NEXT_ADDRESS m b) cs"
    by simp_all
  with Cons.prems(4) obtain zs where ys: "ys = b # zs"
    by (cases ys) auto
  have "\<not> stuck m b"
  proof
    assume "stuck m b"
    then have "NEXT_ADDRESS m b = b" by (simp add: stuck_def)
    with rest b(2) show False by (auto dest: chain_self_loop)
  qed
  with Cons.prems(2) have nx: "NEXT_ADDRESS m b = hd_or zs 0" and sg: "seg m 0 zs"
    by (simp_all add: ys)
  from Cons.prems(3) have "\<forall>x\<in>set zs. x \<noteq> 0" by (simp add: ys)
  from Cons.IH [OF rest sg this nx] show ?case by (simp add: ys)
qed

lemma spec_first_fit_skip:
  "(\<And>p1 x p2. pre = p1 @ x # p2 \<Longrightarrow> \<not> spec_adequate aux h x (p2 @ rest)) \<Longrightarrow>
     spec_first_fit aux h (pre @ rest) = spec_first_fit aux h rest"
proof (induction pre)
  case Nil
  then show ?case by simp
next
  case (Cons a pre)
  have "\<not> spec_adequate aux h a (pre @ rest)"
    using Cons.prems [of "[]" a pre] by simp
  moreover have "spec_first_fit aux h (pre @ rest) = spec_first_fit aux h rest"
  proof (rule Cons.IH)
    fix p1 x p2 assume "pre = p1 @ x # p2"
    then have "a # pre = (a # p1) @ x # p2" by simp
    then show "\<not> spec_adequate aux h x (p2 @ rest)" by (rule Cons.prems)
  qed
  ultimately show ?case by simp
qed

text \<open>What the search loop tests, against adequacy: they agree on every block that does
  not become the last block of the chain when merged; a free block that does is always
  accepted by the loop.\<close>

lemma search_accepts_spec:
  assumes brk: "brk_ok brk" and inv: "inv_bs brk (available_size h) (mem h) L (pre @ b # ys)"
    and h: "size_heap h = 4096" "start_of_heap h = brk"
    and aux: "aux \<le> available_size h"
  shows "search_accepts aux (mem h) b \<longleftrightarrow>
           \<not> IS_INUSE (mem h) b \<and> (end_of_run (mem h) ys = 0 \<or> spec_adequate aux h b ys)"
proof -
  let ?m = "mem h" and ?e = "end_of_run (mem h) ys"
  from inv have ok: "blocks_ok ?m (pre @ b # ys)" by (simp add: inv_bs_def)
  have bin: "b \<in> set (pre @ b # ys)" by simp
  from inv bin have bound: "unat b + unat (available_size h) \<le> top_of brk"
    unfolding inv_bs_def by blast
  have ua: "unat aux \<le> unat (available_size h)"
    using aux by (simp add: word_le_nat_alt)
  have small: "unat b + 8 < 2 ^ 64"
    using brk inv bin by (rule inv_small)
  have u8: "unat (b + 8) = unat b + 8"
    using small by (rule unat_plus_8)
  have ch: "search_accepts aux ?m b \<longleftrightarrow> \<not> IS_INUSE ?m b \<and> aux \<le> ?e - (b + 8)"
    using search_accepts_char [OF ok] by (simp add: SZ_BLOCK_METADATA_def)
  show "search_accepts aux ?m b \<longleftrightarrow> \<not> IS_INUSE ?m b \<and> (?e = 0 \<or> spec_adequate aux h b ys)"
  proof (cases "?e = 0")
    case True
    have "unat (0 - (b + 8)) = 2 ^ 64 - (unat b + 8)"
      using unat_sub_if' [of "0 :: addr" "b + 8"] u8 by simp
    moreover have "unat aux + (unat b + 8) < 2 ^ 64"
      using bound ua top_of_bound [OF brk] by linarith
    ultimately have "unat aux \<le> unat (0 - (b + 8))" by linarith
    then have "aux \<le> ?e - (b + 8)"
      unfolding True by (simp only: word_le_nat_alt)
    with ch True show ?thesis by simp
  next
    case False
    then obtain cs where d: "dropWhile (\<lambda>x. \<not> IS_INUSE ?m x) ys = ?e # cs"
      unfolding end_of_run_def by (cases "dropWhile (\<lambda>x. \<not> IS_INUSE ?m x) ys") auto
    then have "?e \<in> set ys"
      by (metis list.set_intros(1) set_dropWhileD)
    moreover from ok have "sorted_wrt (\<lambda>a b. unat a + 8 \<le> unat b) (pre @ b # ys)"
      by (simp add: blocks_ok_def)
    ultimately have g: "unat b + 8 \<le> unat ?e"
      by (simp add: sorted_wrt_append)
    then have "unat (?e - (b + 8)) = unat ?e - (unat b + 8)"
      using unat_sub_if' [of ?e "b + 8"] u8 by simp
    then have "aux \<le> ?e - (b + 8) \<longleftrightarrow> unat aux \<le> spec_block_size h b ?e"
      using False by (simp add: word_le_nat_alt spec_block_size_def SZ_BLOCK_METADATA_def)
    with ch False show ?thesis by (simp add: spec_adequate_def)
  qed
qed

text \<open>
  In every reachable state whose chain ends at the null reference, an allocation that
  returns hands out the block first fit selects, with one exception: when first fit
  selects no block, it hands out the free block that, merged with the free blocks after
  it, is the last block of the chain: for that block \<^verbatim>\<open>BLOCK_SIZE\<close> is not its size.
\<close>

lemma first_fit_up_to_last_block:
  assumes brk: "brk_ok brk" and r: "reach brk h L"
    and call: "mymalloc brk h n = Some (Returned p, h')"
    and ch: "chain (mem (lazy_init brk h)) brk bs"
  shows "spec_first_fit (ALIGN (n + SZ_BLOCK_METADATA)) (lazy_init brk h) bs
           = Some (p - SZ_BLOCK_METADATA)
         \<or> spec_first_fit (ALIGN (n + SZ_BLOCK_METADATA)) (lazy_init brk h) bs = None
           \<and> (\<exists>pre ys. bs = pre @ (p - SZ_BLOCK_METADATA) # ys
                 \<and> \<not> IS_INUSE (mem (lazy_init brk h)) (p - SZ_BLOCK_METADATA)
                 \<and> end_of_run (mem (lazy_init brk h)) ys = 0)"
proof -
  let ?aux = "ALIGN (n + SZ_BLOCK_METADATA)"
  let ?h = "lazy_init brk h"
  let ?m = "mem ?h"
  from call obtain m' tmp where le: "?aux \<le> available_size ?h"
    and f: "find_fit ?aux ?m (start_of_heap ?h) = Some (m', tmp)"
    and tmp: "tmp \<noteq> 0" and p: "p = tmp + SZ_BLOCK_METADATA"
    unfolding mymalloc_Returned by blast
  from lazy_init_inv [OF brk reach_inv [OF brk r]] obtain bs' where
    sz: "size_heap ?h = 4096" and st: "start_of_heap ?h = brk"
    and inv': "inv_bs brk (available_size ?h) ?m L bs'"
    by (auto simp: heap_inv_def)
  from inv' have "seg ?m 0 bs'" "\<forall>x\<in>set bs'. x \<noteq> 0" "brk = hd_or bs' 0"
    by (cases bs'; simp add: inv_bs_def blocks_ok_def)+
  from chain_is_block_list [OF ch this] have "bs = bs'" .
  with inv' have inv: "inv_bs brk (available_size ?h) ?m L bs" by simp
  then have b0: "brk \<in> set bs" by (auto simp: inv_bs_def)
  from find_fit_first [OF f [unfolded st] brk inv] b0 tmp
  have tin: "tmp \<in> set bs" and acc: "search_accepts ?aux ?m tmp"
    and none: "\<forall>b\<in>set bs. unat brk \<le> unat b \<and> unat b < unat tmp \<longrightarrow> \<not> search_accepts ?aux ?m b"
    by simp_all
  from tin obtain pre ys where bs: "bs = pre @ tmp # ys"
    by (auto dest: split_list)
  from inv have srt: "sorted_wrt (\<lambda>a b. unat a + 8 \<le> unat b) (pre @ tmp # ys)"
    and nz: "\<forall>x\<in>set ys. x \<noteq> 0"
    by (simp_all add: inv_bs_def blocks_ok_def bs)
  from search_accepts_spec [OF brk inv [unfolded bs] sz st le] acc
  have free: "\<not> IS_INUSE ?m tmp"
    and last_or: "end_of_run ?m ys = 0 \<or> spec_adequate ?aux ?h tmp ys"
    by simp_all
  have earlier: "\<not> spec_adequate ?aux ?h x (p2 @ tmp # ys)" if "pre = p1 @ x # p2" for p1 x p2
  proof -
    from srt that have "unat x + 8 \<le> unat tmp"
      by (simp add: sorted_wrt_append)
    moreover have xin: "x \<in> set bs" by (simp add: bs that)
    moreover note hd_least [OF inv xin]
    ultimately have "\<not> search_accepts ?aux ?m x"
      using none by simp
    moreover have "inv_bs brk (available_size ?h) ?m L (p1 @ x # p2 @ tmp # ys)"
      using inv by (simp add: bs that)
    from search_accepts_spec [OF brk this sz st le]
    have "search_accepts ?aux ?m x \<longleftrightarrow>
            \<not> IS_INUSE ?m x \<and> (end_of_run ?m (p2 @ tmp # ys) = 0
                                  \<or> spec_adequate ?aux ?h x (p2 @ tmp # ys))" .
    ultimately show ?thesis
      by (auto simp: spec_adequate_def)
  qed
  have skip: "spec_first_fit ?aux ?h bs = spec_first_fit ?aux ?h (tmp # ys)"
    unfolding bs using earlier by (rule spec_first_fit_skip)
  show ?thesis
  proof (cases "spec_adequate ?aux ?h tmp ys")
    case True
    with skip show ?thesis by (simp add: p)
  next
    case False
    with last_or have e: "end_of_run ?m ys = 0" by simp
    have d: "dropWhile (\<lambda>x. \<not> IS_INUSE ?m x) ys = []"
    proof (cases "dropWhile (\<lambda>x. \<not> IS_INUSE ?m x) ys")
      case Nil
      then show ?thesis .
    next
      case (Cons c cs)
      then have "c \<in> set ys"
        by (metis list.set_intros(1) set_dropWhileD)
      moreover from e have "c = 0" unfolding end_of_run_def Cons by simp
      ultimately show ?thesis using nz by blast
    qed
    then have allfree: "\<forall>x\<in>set ys. \<not> IS_INUSE ?m x"
      by (simp add: dropWhile_eq_Nil_conv)
    from False free e have short: "\<not> unat ?aux \<le> spec_block_size ?h tmp 0"
      by (simp add: spec_adequate_def)
    have later: "\<not> spec_adequate ?aux ?h y (y2 @ [])" if "ys = y1 @ y # y2" for y1 y y2
    proof -
      from allfree that have dy: "dropWhile (\<lambda>x. \<not> IS_INUSE ?m x) y2 = []"
        by (simp add: dropWhile_eq_Nil_conv)
      have ey: "end_of_run ?m y2 = 0"
        unfolding end_of_run_def dy by simp
      from srt that have "unat tmp \<le> unat y"
        by (simp add: sorted_wrt_append)
      then have "spec_block_size ?h y 0 \<le> spec_block_size ?h tmp 0"
        by (simp add: spec_block_size_def)
      with short show ?thesis
        by (simp add: spec_adequate_def ey)
    qed
    have "spec_first_fit ?aux ?h (ys @ []) = spec_first_fit ?aux ?h []"
      using later by (rule spec_first_fit_skip)
    then have "spec_first_fit ?aux ?h ys = None" by simp
    with skip False have "spec_first_fit ?aux ?h bs = None" by simp
    with bs free e show ?thesis
      by (auto simp: p)
  qed
qed

section \<open>The splitting test against the splitting rule\<close>

text \<open>
  In every reachable state, when the block the search stops at is not the last block of
  the chain, \<^verbatim>\<open>BLOCK_SIZE\<close> is its size and the test before the split is the splitting
  rule. The block for which it is not is the last block.
\<close>

lemma split_test_inner_block:
  assumes brk: "brk_ok brk" and r: "reach brk h L"
    and call: "mymalloc brk h n = Some (Returned p, h')"
    and f: "find_fit (ALIGN (n + SZ_BLOCK_METADATA)) (mem (lazy_init brk h))
              (start_of_heap (lazy_init brk h)) = Some (m, tmp)"
    and inner: "NEXT_ADDRESS m tmp \<noteq> 0"
  shows "unat (BLOCK_SIZE m tmp) = spec_block_size ((lazy_init brk h)\<lparr>mem := m\<rparr>) tmp (NEXT_ADDRESS m tmp)"
    and "ALIGN (n + SZ_BLOCK_METADATA) + SZ_BLOCK_METADATA + MY_ALIGNMENT_SZ \<le> BLOCK_SIZE m tmp
           \<longleftrightarrow> spec_splits (ALIGN (n + SZ_BLOCK_METADATA)) ((lazy_init brk h)\<lparr>mem := m\<rparr>) tmp
                 (NEXT_ADDRESS m tmp)"
proof -
  let ?aux = "ALIGN (n + SZ_BLOCK_METADATA)"
  let ?h = "lazy_init brk h"
  from call f have le: "?aux \<le> available_size ?h" and tmp: "tmp \<noteq> 0"
    unfolding mymalloc_Returned by auto
  from lazy_init_inv [OF brk reach_inv [OF brk r]] obtain bs where
    st: "start_of_heap ?h = brk" and inv: "inv_bs brk (available_size ?h) (mem ?h) L bs"
    by (auto simp: heap_inv_def)
  from inv have "brk \<in> set bs" by (auto simp: inv_bs_def)
  with find_fit_inv [OF f [unfolded st] inv] tmp
  obtain bs1 where i1: "inv_bs brk (available_size ?h) m L bs1"
    and t1: "tmp \<in> set bs1" "\<not> IS_INUSE m tmp"
    by auto
  from t1(1) obtain pre ys where bs1: "bs1 = pre @ tmp # ys"
    by (auto dest: split_list)
  let ?c = "NEXT_ADDRESS m tmp"
  have c: "?c = hd_or ys 0"
    using i1 t1(2) unfolding bs1 by (rule inv_free_next)
  with inner obtain cs where ys: "ys = ?c # cs" by (cases ys) auto
  from i1 have "sorted_wrt (\<lambda>a b. unat a + 8 \<le> unat b) (pre @ tmp # ?c # cs)"
    unfolding bs1 by (subst (asm) ys) (simp add: inv_bs_def blocks_ok_def)
  then have g: "unat tmp + 8 \<le> unat ?c" by (rule gap_next)
  have "unat tmp + 8 < 2 ^ 64"
    using brk i1 t1(1) by (rule inv_small)
  then have u8: "unat (tmp + 8) = unat tmp + 8" by (rule unat_plus_8)
  have "unat (?c - (tmp + 8)) = unat ?c - (unat tmp + 8)"
    using unat_sub_if' [of ?c "tmp + 8"] u8 g by simp
  then show sz: "unat (BLOCK_SIZE m tmp) = spec_block_size (?h\<lparr>mem := m\<rparr>) tmp ?c"
    using inner by (simp add: BLOCK_SIZE_def spec_block_size_def SZ_BLOCK_METADATA_def)
  have "unat ?aux \<le> 4096"
    using le inv_avail [OF inv] by (simp add: word_le_nat_alt)
  then have "unat (?aux + 16) = unat ?aux + unat (16 :: addr)"
    by (intro unat_add_small) simp
  then have "unat (?aux + 8 + 8) = unat ?aux + 8 + 8"
    by (simp add: add.assoc)
  then show "?aux + SZ_BLOCK_METADATA + MY_ALIGNMENT_SZ \<le> BLOCK_SIZE m tmp
           \<longleftrightarrow> spec_splits ?aux (?h\<lparr>mem := m\<rparr>) tmp ?c"
    unfolding spec_splits_def sz [symmetric]
    by (simp add: word_le_nat_alt SZ_BLOCK_METADATA_def MY_ALIGNMENT_SZ_def)
qed

end
